theory Spec2Isabelle
  imports Main
begin

section \<open>JavaScript values and exceptions\<close>

text \<open>
  \<open>DynamicDBData\<close> is \<open>{ [key: string | number]: any }\<close>, and callers can pass anything
  at run time (\<open>set(123 as any, {})\<close>), so keys and data are run-time values. An object is
  the list of its own enumerable properties in enumeration order; a well-formed object
  has pairwise distinct property names. \<open>JNum\<close> holds the integral numbers (JavaScript's
  safe integers); fractions, \<open>NaN\<close> and the infinities are outside this model.
  \<open>JBigInt\<close> stands for the values \<open>JSON.stringify\<close> throws on. Characters are 8-bit.
\<close>

datatype jsval =
    JUndefined
  | JNull
  | JBool bool
  | JNum int
  | JBigInt int
  | JStr string
  | JArr "jsval list"
  | JObj "(string \<times> jsval) list"

datatype exn = TypeError | SyntaxError | HostError

abbreviation dquote :: char where "dquote \<equiv> CHR 0x22"
abbreviation backslash :: char where "backslash \<equiv> CHR 0x5C"

section \<open>The platform's JSON codec\<close>

subsection \<open>\<open>JSON.stringify\<close>\<close>

definition digit_char :: "nat \<Rightarrow> char" where
  "digit_char d = char_of (48 + d)"

fun show_nat :: "nat \<Rightarrow> string" where
  "show_nat n = (if n < 10 then [digit_char n] else show_nat (n div 10) @ [digit_char (n mod 10)])"

declare show_nat.simps [simp del]

definition show_int :: "int \<Rightarrow> string" where
  "show_int i = (if i < 0 then CHR ''-'' # show_nat (nat (- i)) else show_nat (nat i))"

definition hex_char :: "nat \<Rightarrow> char" where
  "hex_char d = (if d < 10 then char_of (48 + d) else char_of (87 + d))"

text \<open>QuoteJSONString, one character at a time.\<close>

definition esc :: "char \<Rightarrow> string" where
  "esc c =
     (if c = dquote then [backslash, dquote]
      else if c = backslash then [backslash, backslash]
      else if c = CHR 0x08 then [backslash, CHR ''b'']
      else if c = CHR 0x0C then [backslash, CHR ''f'']
      else if c = CHR 0x0A then [backslash, CHR ''n'']
      else if c = CHR 0x0D then [backslash, CHR ''r'']
      else if c = CHR 0x09 then [backslash, CHR ''t'']
      else if (of_char c :: nat) < 32
        then [backslash, CHR ''u'', CHR ''0'', CHR ''0'',
              hex_char (of_char c div 16), hex_char (of_char c mod 16)]
      else [c])"

definition quote :: "string \<Rightarrow> string" where
  "quote s = dquote # concat (map esc s) @ [dquote]"

fun join :: "string list \<Rightarrow> string" where
  "join [] = []"
| "join [t] = t"
| "join (t # ts) = t @ CHR '','' # join ts"

text \<open>
  SerializeJSONProperty: \<open>Inl\<close> is a throw, \<open>Inr None\<close> is the result \<open>undefined\<close>. An
  \<open>undefined\<close> array element is written \<open>null\<close>; an \<open>undefined\<close> property is left out.
\<close>

fun ser :: "jsval \<Rightarrow> exn + string option"
  and ser_elems :: "jsval list \<Rightarrow> exn + string list"
  and ser_props :: "(string \<times> jsval) list \<Rightarrow> exn + string list" where
  "ser JUndefined = Inr None"
| "ser JNull = Inr (Some ''null'')"
| "ser (JBool b) = Inr (Some (if b then ''true'' else ''false''))"
| "ser (JNum n) = Inr (Some (show_int n))"
| "ser (JBigInt n) = Inl TypeError"
| "ser (JStr s) = Inr (Some (quote s))"
| "ser (JArr xs) =
     (case ser_elems xs of
        Inl e \<Rightarrow> Inl e
      | Inr ts \<Rightarrow> Inr (Some (CHR ''['' # join ts @ '']'')))"
| "ser (JObj ps) =
     (case ser_props ps of
        Inl e \<Rightarrow> Inl e
      | Inr ts \<Rightarrow> Inr (Some (CHR ''{'' # join ts @ ''}'')))"
| "ser_elems [] = Inr []"
| "ser_elems (x # xs) =
     (case ser x of
        Inl e \<Rightarrow> Inl e
      | Inr t \<Rightarrow>
          (case ser_elems xs of
             Inl e \<Rightarrow> Inl e
           | Inr ts \<Rightarrow> Inr ((case t of None \<Rightarrow> ''null'' | Some s \<Rightarrow> s) # ts)))"
| "ser_props [] = Inr []"
| "ser_props ((k, x) # ps) =
     (case ser x of
        Inl e \<Rightarrow> Inl e
      | Inr t \<Rightarrow>
          (case ser_props ps of
             Inl e \<Rightarrow> Inl e
           | Inr ts \<Rightarrow>
               Inr ((case t of None \<Rightarrow> [] | Some s \<Rightarrow> [quote k @ CHR '':'' # s]) @ ts)))"

definition JSON_stringify :: "jsval \<Rightarrow> exn + string option" where
  "JSON_stringify v = ser v"

subsection \<open>\<open>JSON.parse\<close>\<close>

definition is_ws :: "char \<Rightarrow> bool" where
  "is_ws c = (c = CHR 0x20 \<or> c = CHR 0x09 \<or> c = CHR 0x0A \<or> c = CHR 0x0D)"

definition skip_ws :: "string \<Rightarrow> string" where
  "skip_ws s = dropWhile is_ws s"

definition is_digit :: "char \<Rightarrow> bool" where
  "is_digit c = (48 \<le> (of_char c :: nat) \<and> (of_char c :: nat) \<le> 57)"

definition digit_val :: "char \<Rightarrow> nat" where
  "digit_val c = of_char c - 48"

definition hex_val :: "char \<Rightarrow> nat option" where
  "hex_val c =
     (let n = (of_char c :: nat) in
      if 48 \<le> n \<and> n \<le> 57 then Some (n - 48)
      else if 97 \<le> n \<and> n \<le> 102 then Some (n - 87)
      else if 65 \<le> n \<and> n \<le> 70 then Some (n - 55)
      else None)"

definition unescape :: "char \<Rightarrow> char option" where
  "unescape e =
     (if e = dquote then Some dquote
      else if e = backslash then Some backslash
      else if e = CHR ''/'' then Some CHR ''/''
      else if e = CHR ''b'' then Some (CHR 0x08)
      else if e = CHR ''f'' then Some (CHR 0x0C)
      else if e = CHR ''n'' then Some (CHR 0x0A)
      else if e = CHR ''r'' then Some (CHR 0x0D)
      else if e = CHR ''t'' then Some (CHR 0x09)
      else None)"

definition p_hex4 :: "char \<Rightarrow> char \<Rightarrow> char \<Rightarrow> char \<Rightarrow> nat option" where
  "p_hex4 a b c d =
     (case (hex_val a, hex_val b, hex_val c, hex_val d) of
        (Some x, Some y, Some z, Some w) \<Rightarrow> Some (((x * 16 + y) * 16 + z) * 16 + w)
      | _ \<Rightarrow> None)"

text \<open>
  The characters of a string literal after its opening quote, up to and including the
  closing quote. A \<open>\u\<close> escape above \<open>0xFF\<close> names a character this 8-bit model does
  not have and is not accepted here.
\<close>

fun p_string :: "string \<Rightarrow> (string \<times> string) option" where
  "p_string [] = None"
| "p_string (c # r) =
     (if c = dquote then Some ([], r)
      else if c = backslash then
        (case r of
           [] \<Rightarrow> None
         | e # r1 \<Rightarrow>
             if e = CHR ''u'' then
               (case r1 of
                  h1 # h2 # h3 # h4 # r2 \<Rightarrow>
                    (case p_hex4 h1 h2 h3 h4 of
                       None \<Rightarrow> None
                     | Some n \<Rightarrow>
                         if n < 256 then
                           (case p_string r2 of
                              None \<Rightarrow> None
                            | Some (s, r3) \<Rightarrow> Some (char_of n # s, r3))
                         else None)
                | _ \<Rightarrow> None)
             else
               (case unescape e of
                  None \<Rightarrow> None
                | Some d \<Rightarrow>
                    (case p_string r1 of
                       None \<Rightarrow> None
                     | Some (s, r3) \<Rightarrow> Some (d # s, r3))))
      else if (of_char c :: nat) < 32 then None
      else
        (case p_string r of
           None \<Rightarrow> None
         | Some (s, r3) \<Rightarrow> Some (c # s, r3)))"

text \<open>
  An integer literal: digits with no leading zero. A fraction or an exponent after the
  digits is left in the input, where the caller finds no delimiter and rejects the text:
  such literals denote values outside \<open>JNum\<close>.
\<close>

definition p_digits :: "string \<Rightarrow> (nat \<times> string) option" where
  "p_digits s =
     (let ds = takeWhile is_digit s in
      if ds = [] then None
      else if 1 < length ds \<and> hd ds = CHR ''0'' then None
      else Some (foldl (\<lambda>a c. 10 * a + digit_val c) 0 ds, dropWhile is_digit s))"

definition p_number :: "string \<Rightarrow> (jsval \<times> string) option" where
  "p_number s =
     (case s of
        [] \<Rightarrow> None
      | c # r \<Rightarrow>
          if c = CHR ''-'' then
            (case p_digits r of None \<Rightarrow> None | Some (n, r1) \<Rightarrow> Some (JNum (- int n), r1))
          else
            (case p_digits s of None \<Rightarrow> None | Some (n, r1) \<Rightarrow> Some (JNum (int n), r1)))"

text \<open>CreateDataProperty on a property list: an existing name keeps its place.\<close>

fun define_prop :: "(string \<times> jsval) list \<Rightarrow> string \<times> jsval \<Rightarrow> (string \<times> jsval) list" where
  "define_prop [] kv = [kv]"
| "define_prop ((k', v') # ps) kv =
     (if k' = fst kv then (k', snd kv) # ps else (k', v') # define_prop ps kv)"

text \<open>
  The recursive descent, with fuel for the nesting: every call consumes a character
  before it recurses twice, so \<open>Suc (length t)\<close> is enough for a text \<open>t\<close>.
  \<open>p_elems\<close> reads the elements of a non-empty array and its closing bracket,
  \<open>p_members\<close> the members of a non-empty object and its closing brace.
\<close>

fun p_value :: "nat \<Rightarrow> string \<Rightarrow> (jsval \<times> string) option"
  and p_elems :: "nat \<Rightarrow> string \<Rightarrow> (jsval list \<times> string) option"
  and p_members :: "nat \<Rightarrow> string \<Rightarrow> ((string \<times> jsval) list \<times> string) option" where
  "p_value 0 s = None"
| "p_value (Suc f) s =
     (case skip_ws s of
        [] \<Rightarrow> None
      | c # r \<Rightarrow>
          if c = CHR ''n'' then
            (if take 3 r = ''ull'' then Some (JNull, drop 3 r) else None)
          else if c = CHR ''t'' then
            (if take 3 r = ''rue'' then Some (JBool True, drop 3 r) else None)
          else if c = CHR ''f'' then
            (if take 4 r = ''alse'' then Some (JBool False, drop 4 r) else None)
          else if c = dquote then
            (case p_string r of None \<Rightarrow> None | Some (str, r1) \<Rightarrow> Some (JStr str, r1))
          else if c = CHR ''['' then
            (case skip_ws r of
               [] \<Rightarrow> None
             | d # r1 \<Rightarrow>
                 if d = CHR '']'' then Some (JArr [], r1)
                 else (case p_elems f r of None \<Rightarrow> None | Some (xs, r2) \<Rightarrow> Some (JArr xs, r2)))
          else if c = CHR ''{'' then
            (case skip_ws r of
               [] \<Rightarrow> None
             | d # r1 \<Rightarrow>
                 if d = CHR ''}'' then Some (JObj [], r1)
                 else
                   (case p_members f r of
                      None \<Rightarrow> None
                    | Some (ms, r2) \<Rightarrow> Some (JObj (foldl define_prop [] ms), r2)))
          else if c = CHR ''-'' \<or> is_digit c then p_number (c # r)
          else None)"
| "p_elems 0 s = None"
| "p_elems (Suc f) s =
     (case p_value f s of
        None \<Rightarrow> None
      | Some (x, r) \<Rightarrow>
          (case skip_ws r of
             [] \<Rightarrow> None
           | c # r1 \<Rightarrow>
               if c = CHR '','' then
                 (case p_elems f r1 of None \<Rightarrow> None | Some (xs, r2) \<Rightarrow> Some (x # xs, r2))
               else if c = CHR '']'' then Some ([x], r1)
               else None))"
| "p_members 0 s = None"
| "p_members (Suc f) s =
     (case skip_ws s of
        [] \<Rightarrow> None
      | q # r \<Rightarrow>
          if q \<noteq> dquote then None
          else
            (case p_string r of
               None \<Rightarrow> None
             | Some (k, r1) \<Rightarrow>
                 (case skip_ws r1 of
                    [] \<Rightarrow> None
                  | c # r2 \<Rightarrow>
                      if c \<noteq> CHR '':'' then None
                      else
                        (case p_value f r2 of
                           None \<Rightarrow> None
                         | Some (x, r3) \<Rightarrow>
                             (case skip_ws r3 of
                                [] \<Rightarrow> None
                              | d # r4 \<Rightarrow>
                                  if d = CHR '','' then
                                    (case p_members f r4 of
                                       None \<Rightarrow> None
                                     | Some (ms, r5) \<Rightarrow> Some ((k, x) # ms, r5))
                                  else if d = CHR ''}'' then Some ([(k, x)], r4)
                                  else None)))))"

definition JSON_parse :: "string \<Rightarrow> exn + jsval" where
  "JSON_parse t =
     (case p_value (Suc (length t)) t of
        None \<Rightarrow> Inl SyntaxError
      | Some (v, r) \<Rightarrow> if skip_ws r = [] then Inr v else Inl SyntaxError)"

subsection \<open>The values the codec carries\<close>

text \<open>
  The JSON-representable values: no \<open>undefined\<close> and nothing \<open>JSON.stringify\<close> throws
  on, anywhere inside; numbers in the safe-integer range; objects well-formed.
\<close>

fun serializable :: "jsval \<Rightarrow> bool"
  and serializable_elems :: "jsval list \<Rightarrow> bool"
  and serializable_props :: "(string \<times> jsval) list \<Rightarrow> bool" where
  "serializable JUndefined = False"
| "serializable JNull = True"
| "serializable (JBool b) = True"
| "serializable (JNum n) = (\<bar>n\<bar> \<le> 9007199254740991)"
| "serializable (JBigInt n) = False"
| "serializable (JStr s) = True"
| "serializable (JArr xs) = serializable_elems xs"
| "serializable (JObj ps) = (distinct (map fst ps) \<and> serializable_props ps)"
| "serializable_elems [] = True"
| "serializable_elems (x # xs) = (serializable x \<and> serializable_elems xs)"
| "serializable_props [] = True"
| "serializable_props ((k, x) # ps) = (serializable x \<and> serializable_props ps)"

section \<open>Collaborators that are not among the sources\<close>

subsection \<open>Validator\<close>

text \<open>
  Modelled from the spec: \<open>Validator.isString\<close> (module \<open>Utilities/Validator\<close>, not among
  the sources). The spec calls \<open>Validator\<close> a leaf of pure predicates and has \<open>get\<close> and
  \<open>set\<close> fail when the key "is not a string".
\<close>

definition Validator_isString :: "jsval \<Rightarrow> bool" where
  "Validator_isString v = (case v of JStr _ \<Rightarrow> True | _ \<Rightarrow> False)"

text \<open>
  Modelled from the spec: \<open>Validator.isObject\<close> (same module). The spec has \<open>set\<close> validate
  that the value "is a structured object" and reject \<open>set("k", "not an object")\<close>; it does
  not say what the predicate answers on arrays or \<open>null\<close>, which are taken not to be objects.
\<close>

definition Validator_isObject :: "jsval \<Rightarrow> bool" where
  "Validator_isObject v = (case v of JObj _ \<Rightarrow> True | _ \<Rightarrow> False)"

text \<open>Modelled from the spec: \<open>Validator.isUndefined\<close> (same module), a pure predicate.\<close>

definition Validator_isUndefined :: "jsval \<Rightarrow> bool" where
  "Validator_isUndefined v = (v = JUndefined)"

subsection \<open>Logger\<close>

text \<open>
  Modelled from the spec: the records \<open>Logger\<close> (module \<open>Systems/Logger\<close>, not among the
  sources) accepts, \<open>{unit, location, message}\<close>.
\<close>

record diag =
  unit :: string
  location :: string
  message :: string

text \<open>
  Modelled from the spec: \<open>Logger.Danger\<close>, a sink for diagnostic records; the logger's
  state is the list of the records it was given. \<open>Logger.DevMode()\<close> may return no logger
  (the field \<open>_Logger\<close> is optional and only used through \<open>?.\<close>), so its result is an
  argument of the constructor below.
\<close>

definition Danger :: "diag \<Rightarrow> diag list \<Rightarrow> diag list" where
  "Danger d sink = sink @ [d]"

subsection \<open>The host's dynamic properties\<close>

text \<open>
  Modelled from the spec: the Host Property Backend of one Owner (section 6 of the spec;
  the host library is not among the sources). Its state is the list of the Physical Slots
  in enumeration order, each a key and a text, and the host's single-slot limit, which is
  a field because the spec leaves the constant open.
\<close>

record backend =
  slots :: "(string \<times> string) list"
  slot_limit :: nat

text \<open>
  Modelled from the spec: writing a slot. A key that is present keeps its place in the
  enumeration, a new key comes last.
\<close>

fun put_slot :: "(string \<times> string) list \<Rightarrow> string \<Rightarrow> string \<Rightarrow> (string \<times> string) list" where
  "put_slot [] k t = [(k, t)]"
| "put_slot ((k', t') # ss) k t =
     (if k' = k then (k', t) # ss else (k', t') # put_slot ss k t)"

text \<open>
  Modelled from the spec: \<open>getProperty(key)\<close>, the text of the slot or \<open>undefined\<close>. The
  host takes string identifiers only.
\<close>

definition getDynamicProperty :: "backend \<Rightarrow> jsval \<Rightarrow> exn + string option" where
  "getDynamicProperty b ident =
     (case ident of JStr k \<Rightarrow> Inr (map_of (slots b) k) | _ \<Rightarrow> Inl TypeError)"

text \<open>
  Modelled from the spec: \<open>setProperty(key, text | undefined)\<close>; with \<open>undefined\<close> it clears
  the key. A text longer than the single-slot limit is refused by throwing, and nothing
  is written.
\<close>

definition setDynamicProperty :: "backend \<Rightarrow> jsval \<Rightarrow> string option \<Rightarrow> exn + backend" where
  "setDynamicProperty b ident val =
     (case ident of
        JStr k \<Rightarrow>
          (case val of
             None \<Rightarrow> Inr (b\<lparr>slots := filter (\<lambda>s. fst s \<noteq> k) (slots b)\<rparr>)
           | Some t \<Rightarrow>
               if slot_limit b < length t then Inl HostError
               else Inr (b\<lparr>slots := put_slot (slots b) k t\<rparr>))
      | _ \<Rightarrow> Inl TypeError)"

text \<open>Modelled from the spec: \<open>getPropertyIds()\<close>, the keys in enumeration order.\<close>

definition getDynamicPropertyIds :: "backend \<Rightarrow> string list" where
  "getDynamicPropertyIds b = map fst (slots b)"

text \<open>
  Modelled from the spec: \<open>getPropertyTotalByteCount()\<close>, the bytes consumed across the
  slots that are present, here those of their keys and texts.
\<close>

definition getDynamicPropertyTotalByteCount :: "backend \<Rightarrow> nat" where
  "getDynamicPropertyTotalByteCount b = sum_list (map (\<lambda>s. length (fst s) + length (snd s)) (slots b))"

text \<open>Modelled from the spec: \<open>clearAllProperties()\<close>.\<close>

definition clearDynamicProperties :: "backend \<Rightarrow> backend" where
  "clearDynamicProperties b = b\<lparr>slots := []\<rparr>"

section \<open>DynamicDB\<close>

text \<open>
  The instance: \<open>PROPERTIES\<close> is the Owner's backend, \<open>None\<close> while the field is
  unassigned; \<open>Logger\<close> is the field \<open>_Logger\<close>. The backend belongs to the Owner and is
  shared with other code, so a method returns the state it leaves behind together with
  its completion: \<open>Inl\<close> is an exception that leaves the method, \<open>Inr\<close> its return value.
\<close>

record db =
  PROPERTIES :: "backend option"
  Logger :: "diag list option"

text \<open>
  What the constructor is given at run time: a World, a Player or an Entity, each with
  its backend, or any other value.
\<close>

datatype arg = AWorld backend | APlayer backend | AEntity backend | AOther jsval

definition IsInstanceOfType :: "arg \<Rightarrow> bool" where
  "IsInstanceOfType type =
     ((case type of AWorld _ \<Rightarrow> True | _ \<Rightarrow> False)
      \<or> (case type of APlayer _ \<Rightarrow> True | _ \<Rightarrow> False)
      \<or> (case type of AEntity _ \<Rightarrow> True | _ \<Rightarrow> False))"

definition log :: "string \<Rightarrow> string \<Rightarrow> string \<Rightarrow> db \<Rightarrow> db" where
  "log u l m this =
     (case Logger this of
        None \<Rightarrow> this
      | Some sink \<Rightarrow> this\<lparr>Logger := Some (Danger \<lparr>unit = u, location = l, message = m\<rparr> sink)\<rparr>)"

definition constructor :: "diag list option \<Rightarrow> arg \<Rightarrow> db" where
  "constructor dev type =
     (let this = \<lparr>PROPERTIES = None, Logger = dev\<rparr> in
      if \<not> IsInstanceOfType type then
        log ''DynamicDB'' ''constructor'' ''Type must be an instance of Player, Entity, or World.'' this
      else
        this\<lparr>PROPERTIES :=
          (case type of AWorld b \<Rightarrow> Some b | APlayer b \<Rightarrow> Some b | AEntity b \<Rightarrow> Some b
           | AOther _ \<Rightarrow> None)\<rparr>)"

definition keys :: "db \<Rightarrow> exn + string list" where
  "keys this =
     (case PROPERTIES this of
        None \<Rightarrow> Inl TypeError
      | Some b \<Rightarrow> Inr (getDynamicPropertyIds b))"

definition bytes :: "db \<Rightarrow> exn + nat" where
  "bytes this =
     (case PROPERTIES this of
        None \<Rightarrow> Inl TypeError
      | Some b \<Rightarrow> Inr (getDynamicPropertyTotalByteCount b))"

definition hasKey :: "jsval \<Rightarrow> db \<Rightarrow> exn + bool" where
  "hasKey key this =
     (case keys this of
        Inl e \<Rightarrow> Inl e
      | Inr ids \<Rightarrow> Inr (key \<in> set (map JStr ids)))"

text \<open>The text a string key contributes to a template literal.\<close>

definition key_text :: "jsval \<Rightarrow> string" where
  "key_text key = (case key of JStr k \<Rightarrow> k | _ \<Rightarrow> [])"

definition missing_key :: "jsval \<Rightarrow> string" where
  "missing_key key = ''Key with name '' @ [CHR 0x27] @ key_text key @ [CHR 0x27] @ '' doesn'' @ [CHR 0x27] @ ''t exist.''"

text \<open>
  \<open>JSON.parse\<close> converts its argument to a string first, so an \<open>undefined\<close> property
  would be parsed as the text \<open>undefined\<close>.
\<close>

definition get :: "jsval \<Rightarrow> db \<Rightarrow> (exn + jsval) \<times> db" where
  "get key this =
     (if \<not> Validator_isString key then
        (Inr JUndefined, log ''DynamicDB'' ''get'' ''Key must be a string.'' this)
      else
        (case hasKey key this of
           Inl e \<Rightarrow> (Inl e, this)
         | Inr False \<Rightarrow> (Inr JUndefined, log ''DynamicDB'' ''get'' (missing_key key) this)
         | Inr True \<Rightarrow>
             (case PROPERTIES this of
                None \<Rightarrow> (Inl TypeError, this)
              | Some b \<Rightarrow>
                  (case getDynamicProperty b key of
                     Inl e \<Rightarrow> (Inl e, this)
                   | Inr dynamic_props \<Rightarrow>
                       (JSON_parse (case dynamic_props of None \<Rightarrow> ''undefined'' | Some t \<Rightarrow> t),
                        this)))))"

text \<open>The \<open>try\<close> block of \<open>set\<close>: whatever it throws reaches the \<open>catch\<close>.\<close>

definition set_try :: "jsval \<Rightarrow> jsval \<Rightarrow> db \<Rightarrow> exn + db" where
  "set_try key data this =
     (case JSON_stringify data of
        Inl e \<Rightarrow> Inl e
      | Inr json_data \<Rightarrow>
          (case PROPERTIES this of
             None \<Rightarrow> Inl TypeError
           | Some b \<Rightarrow>
               (case setDynamicProperty b key json_data of
                  Inl e \<Rightarrow> Inl e
                | Inr b' \<Rightarrow> Inr (this\<lparr>PROPERTIES := Some b'\<rparr>))))"

definition set_db :: "jsval \<Rightarrow> jsval \<Rightarrow> db \<Rightarrow> (exn + bool) \<times> db" where
  "set_db key data this =
     (if \<not> Validator_isString key then
        (Inr False, log ''DynamicDB'' ''set'' ''Key must be a string.'' this)
      else if \<not> Validator_isObject data then
        (Inr False, log ''DynamicDB'' ''set'' ''Data must be a object.'' this)
      else
        (case set_try key data this of
           Inr this' \<Rightarrow> (Inr True, this')
         | Inl error \<Rightarrow> (Inr False, log ''DynamicDB'' ''set'' ''Failed to serialize data.'' this)))"

text \<open>
  Object spread copies the own enumerable properties of its source: none for
  \<open>undefined\<close>, \<open>null\<close>, booleans and numbers, the indexed elements of an array, the
  indexed characters of a string.
\<close>

definition own_props :: "jsval \<Rightarrow> (string \<times> jsval) list" where
  "own_props v =
     (case v of
        JObj ps \<Rightarrow> ps
      | JArr xs \<Rightarrow> zip (map show_nat [0..<length xs]) xs
      | JStr s \<Rightarrow> zip (map show_nat [0..<length s]) (map (\<lambda>c. JStr [c]) s)
      | _ \<Rightarrow> [])"

definition dataMerge :: "jsval \<Rightarrow> jsval \<Rightarrow> jsval" where
  "dataMerge existing newData =
     JObj (foldl define_prop (foldl define_prop [] (own_props existing)) (own_props newData))"

definition push :: "jsval \<Rightarrow> jsval \<Rightarrow> db \<Rightarrow> (exn + bool) \<times> db" where
  "push key data this =
     (if \<not> Validator_isString key then
        (Inr False, log ''DynamicDB'' ''push'' ''Key must be a string.'' this)
      else if \<not> Validator_isObject data then
        (Inr False, log ''DynamicDB'' ''push'' ''Data must be a object.'' this)
      else
        (case get key this of
           (Inl e, this1) \<Rightarrow> (Inl e, this1)
         | (Inr existing, this1) \<Rightarrow> set_db key (dataMerge existing data) this1))"

definition delete :: "jsval \<Rightarrow> db \<Rightarrow> (exn + bool) \<times> db" where
  "delete key this =
     (if \<not> Validator_isString key then
        (Inr False, log ''DynamicDB'' ''delete'' ''Key must be a string.'' this)
      else
        (case hasKey key this of
           Inl e \<Rightarrow> (Inl e, this)
         | Inr False \<Rightarrow> (Inr False, log ''DynamicDB'' ''delete'' (missing_key key) this)
         | Inr True \<Rightarrow>
             (case PROPERTIES this of
                None \<Rightarrow> (Inl TypeError, this)
              | Some b \<Rightarrow>
                  (case setDynamicProperty b key None of
                     Inl e \<Rightarrow> (Inl e, this)
                   | Inr b' \<Rightarrow> (Inr True, this\<lparr>PROPERTIES := Some b'\<rparr>)))))"

definition reset :: "db \<Rightarrow> (exn + unit) \<times> db" where
  "reset this =
     (case PROPERTIES this of
        None \<Rightarrow> (Inl TypeError, this)
      | Some b \<Rightarrow> (Inr (), this\<lparr>PROPERTIES := Some (clearDynamicProperties b)\<rparr>))"

subsection \<open>Iteration\<close>

lemma log_PROPERTIES: "PROPERTIES (log u l m this) = PROPERTIES this"
  by (simp add: log_def split: option.splits)

lemma get_PROPERTIES: "PROPERTIES (snd (get key this)) = PROPERTIES this"
  by (simp add: get_def log_PROPERTIES split: sum.splits bool.splits option.splits)

lemma get_keys:
  assumes "(r, this1) = get key this"
  shows "keys this1 = keys this"
proof -
  from assms have "this1 = snd (get key this)"
    by (metis snd_conv)
  then show ?thesis
    by (simp add: keys_def get_PROPERTIES)
qed

text \<open>
  The body of the generator \<open>entries\<close> from index \<open>key_idx\<close>, run to completion as the
  spread \<open>[...this.entries()]\<close> runs it: the list of the pairs it yields. \<open>this.keys\<close> is
  read again at every turn of the loop. An exception that leaves \<open>get\<close> leaves the
  generator and the spread.
\<close>

function entries_loop :: "nat \<Rightarrow> db \<Rightarrow> (exn + (jsval \<times> jsval) list) \<times> db" where
  "entries_loop key_idx this =
     (case keys this of
        Inl e \<Rightarrow> (Inl e, this)
      | Inr ids \<Rightarrow>
          if key_idx < length ids then
            (let key = JStr (ids ! key_idx) in
             case get key this of
               (Inl e, this1) \<Rightarrow> (Inl e, this1)
             | (Inr value, this1) \<Rightarrow>
                 if Validator_isUndefined value then entries_loop (Suc key_idx) this1
                 else
                   (case entries_loop (Suc key_idx) this1 of
                      (Inl e, this2) \<Rightarrow> (Inl e, this2)
                    | (Inr rest, this2) \<Rightarrow> (Inr ((key, value) # rest), this2)))
          else (Inr [], this))"
  by pat_completeness auto
termination
proof (relation "measure (\<lambda>(key_idx, this). (case keys this of Inl _ \<Rightarrow> 0 | Inr ids \<Rightarrow> length ids) - key_idx)", goal_cases)
  case 1
  show ?case by simp
next
  case (2 key_idx this ids key r this1 v)
  then show ?case using get_keys [of r this1 key this] by simp
next
  case (3 key_idx this ids key r this1 v)
  then show ?case using get_keys [of r this1 key this] by simp
qed

declare entries_loop.simps [simp del]

definition entries :: "db \<Rightarrow> (exn + (jsval \<times> jsval) list) \<times> db" where
  "entries this = entries_loop 0 this"

text \<open>
  The generator \<open>values\<close>, one \<open>next()\<close> at a time. Its frame is not started, suspended
  at the \<open>yield\<close> with \<open>entries_arr\<close> and \<open>entries_idx\<close>, or finished. The caller runs
  between two calls, so every call takes the state it finds.
\<close>

datatype values_frame = VStart | VYield "(jsval \<times> jsval) list" nat | VDone

definition values_test :: "(jsval \<times> jsval) list \<Rightarrow> nat \<Rightarrow> db \<Rightarrow> (exn + jsval option) \<times> values_frame \<times> db" where
  "values_test entries_arr entries_idx this =
     (if entries_idx < length entries_arr then
        (Inr (Some (snd (entries_arr ! entries_idx))), VYield entries_arr entries_idx, this)
      else (Inr None, VDone, this))"

definition values_next :: "values_frame \<Rightarrow> db \<Rightarrow> (exn + jsval option) \<times> values_frame \<times> db" where
  "values_next frame this =
     (case frame of
        VStart \<Rightarrow>
          (case entries this of
             (Inl e, this1) \<Rightarrow> (Inl e, VDone, this1)
           | (Inr entries_arr, this1) \<Rightarrow> values_test entries_arr 0 this1)
      | VYield entries_arr entries_idx \<Rightarrow> values_test entries_arr (Suc entries_idx) this
      | VDone \<Rightarrow> (Inr None, VDone, this))"

text \<open>
  A caller of \<open>values\<close> that calls \<open>next()\<close> once in each of the given states, in turn,
  having changed the store as it liked in between: the values it is handed.
\<close>

fun values_pull :: "values_frame \<Rightarrow> db list \<Rightarrow> jsval list" where
  "values_pull frame [] = []"
| "values_pull frame (this # later) =
     (case values_next frame this of
        (Inr (Some v), frame', _) \<Rightarrow> v # values_pull frame' later
      | _ \<Rightarrow> [])"

text \<open>A callback runs caller code: it may change the store and it may throw.\<close>

type_synonym 'r callback = "jsval \<Rightarrow> jsval \<Rightarrow> db \<Rightarrow> (exn + 'r) \<times> db"

function find_loop :: "bool callback \<Rightarrow> (jsval \<times> jsval) list \<Rightarrow> nat \<Rightarrow> db \<Rightarrow> (exn + jsval) \<times> db" where
  "find_loop callbackfn entries_arr entries_idx this =
     (if entries_idx < length entries_arr then
        (case entries_arr ! entries_idx of
           (key, value) \<Rightarrow>
             (case callbackfn value key this of
                (Inl e, this1) \<Rightarrow> (Inl e, this1)
              | (Inr True, this1) \<Rightarrow> (Inr value, this1)
              | (Inr False, this1) \<Rightarrow> find_loop callbackfn entries_arr (Suc entries_idx) this1))
      else (Inr JUndefined, this))"
  by pat_completeness auto
termination
  by (relation "measure (\<lambda>(callbackfn, entries_arr, entries_idx, this). length entries_arr - entries_idx)") auto

declare find_loop.simps [simp del]

definition find_db :: "bool callback \<Rightarrow> db \<Rightarrow> (exn + jsval) \<times> db" where
  "find_db callbackfn this =
     (case entries this of
        (Inl e, this1) \<Rightarrow> (Inl e, this1)
      | (Inr entries_arr, this1) \<Rightarrow> find_loop callbackfn entries_arr 0 this1)"

function forEach_loop :: "'r callback \<Rightarrow> (jsval \<times> jsval) list \<Rightarrow> nat \<Rightarrow> db \<Rightarrow> (exn + unit) \<times> db" where
  "forEach_loop callbackfn entries_arr entries_idx this =
     (if entries_idx < length entries_arr then
        (case entries_arr ! entries_idx of
           (key, value) \<Rightarrow>
             (case callbackfn value key this of
                (Inl e, this1) \<Rightarrow> (Inl e, this1)
              | (Inr _, this1) \<Rightarrow> forEach_loop callbackfn entries_arr (Suc entries_idx) this1))
      else (Inr (), this))"
  by pat_completeness auto
termination
  by (relation "measure (\<lambda>(callbackfn, entries_arr, entries_idx, this). length entries_arr - entries_idx)") auto

declare forEach_loop.simps [simp del]

definition forEach :: "'r callback \<Rightarrow> db \<Rightarrow> (exn + unit) \<times> db" where
  "forEach callbackfn this =
     (case entries this of
        (Inl e, this1) \<Rightarrow> (Inl e, this1)
      | (Inr entries_arr, this1) \<Rightarrow> forEach_loop callbackfn entries_arr 0 this1)"

text \<open>
  What \<open>find\<close> and \<open>forEach\<close> are claimed to do, in the words of the claim: visit the
  entries of one fixed list in order, whatever the callback does to the store.
\<close>

fun find_first :: "bool callback \<Rightarrow> (jsval \<times> jsval) list \<Rightarrow> db \<Rightarrow> (exn + jsval) \<times> db" where
  "find_first callbackfn [] this = (Inr JUndefined, this)"
| "find_first callbackfn ((key, value) # later) this =
     (case callbackfn value key this of
        (Inl e, this1) \<Rightarrow> (Inl e, this1)
      | (Inr True, this1) \<Rightarrow> (Inr value, this1)
      | (Inr False, this1) \<Rightarrow> find_first callbackfn later this1)"

fun visit_all :: "'r callback \<Rightarrow> (jsval \<times> jsval) list \<Rightarrow> db \<Rightarrow> (exn + unit) \<times> db" where
  "visit_all callbackfn [] this = (Inr (), this)"
| "visit_all callbackfn ((key, value) # later) this =
     (case callbackfn value key this of
        (Inl e, this1) \<Rightarrow> (Inl e, this1)
      | (Inr _, this1) \<Rightarrow> visit_all callbackfn later this1)"

section \<open>Example states\<close>

text \<open>A store bound to an Owner with no properties, logging, with the given slot limit.\<close>

definition empty_store :: "nat \<Rightarrow> db" where
  "empty_store limit = \<lparr>PROPERTIES = Some \<lparr>slots = [], slot_limit = limit\<rparr>, Logger = Some []\<rparr>"

text \<open>A value whose JSON text has 18 characters.\<close>

definition long_value :: jsval where
  "long_value = JObj [(''a'', JStr ''0123456789'')]"

text \<open>A store holding \<open>{a:1, b:{x:1}}\<close> under \<open>k\<close>.\<close>

definition merge_store :: db where
  "merge_store = \<lparr>PROPERTIES = Some \<lparr>slots = [(''k'', ''{\"a\":1,\"b\":{\"x\":1}}'')], slot_limit = 100\<rparr>, Logger = Some []\<rparr>"

text \<open>A store with two entries, and two callbacks that change the store while it is iterated.\<close>

definition two_store :: db where
  "two_store = \<lparr>PROPERTIES = Some \<lparr>slots = [(''a'', ''{\"n\":1}''), (''b'', ''{\"n\":2}'')], slot_limit = 100\<rparr>, Logger = Some []\<rparr>"

definition wipe_then_match :: "jsval \<Rightarrow> bool callback" where
  "wipe_then_match wanted value key this = (Inr (key = wanted), snd (reset this))"

definition drop_b_and_mark :: "bool callback" where
  "drop_b_and_mark value key this =
     push (JStr ''seen'') (JObj [(key_text key, value)]) (snd (delete (JStr ''b'') this))"

text \<open>A store whose first slot holds text that is not JSON.\<close>

definition corrupt_store :: db where
  "corrupt_store = \<lparr>PROPERTIES = Some \<lparr>slots = [(''a'', ''{bad''), (''b'', ''{}'')], slot_limit = 100\<rparr>, Logger = Some []\<rparr>"

text \<open>The record the constructor gives the logger.\<close>

definition constructor_message :: diag where
  "constructor_message = \<lparr>unit = ''DynamicDB'', location = ''constructor'',
     message = ''Type must be an instance of Player, Entity, or World.''\<rparr>"

section \<open>The codec round trip\<close>

subsection \<open>Numbers\<close>

lemma of_char_digit_char: "d < 10 \<Longrightarrow> (of_char (digit_char d) :: nat) = 48 + d"
  by (simp add: digit_char_def)

lemma is_digit_digit_char: "d < 10 \<Longrightarrow> is_digit (digit_char d)"
  by (simp add: is_digit_def of_char_digit_char)

lemma digit_val_digit_char: "d < 10 \<Longrightarrow> digit_val (digit_char d) = d"
  by (simp add: digit_val_def of_char_digit_char)

lemma show_nat_digits: "c \<in> set (show_nat n) \<Longrightarrow> is_digit c"
proof (induction n arbitrary: c rule: show_nat.induct)
  case (1 n)
  show ?case
  proof (cases "n < 10")
    case True
    with "1.prems" show ?thesis
      by (simp add: show_nat.simps [of n] is_digit_digit_char)
  next
    case False
    with "1.prems" "1.IH" show ?thesis
      by (auto simp: show_nat.simps [of n] is_digit_digit_char)
  qed
qed

lemma show_nat_not_Nil: "show_nat n \<noteq> []"
  by (simp add: show_nat.simps [of n])

lemma show_nat_value: "foldl (\<lambda>a c. 10 * a + digit_val c) 0 (show_nat n) = n"
proof (induction n rule: show_nat.induct)
  case (1 n)
  show ?case
  proof (cases "n < 10")
    case True
    then show ?thesis
      by (simp add: show_nat.simps [of n] digit_val_digit_char)
  next
    case False
    with "1.IH" show ?thesis
      by (simp add: show_nat.simps [of n] digit_val_digit_char)
  qed
qed

lemma digit_char_zero: "d < 10 \<Longrightarrow> digit_char d = CHR ''0'' \<Longrightarrow> d = 0"
proof -
  assume d: "d < 10" and z: "digit_char d = CHR ''0''"
  from z have "(of_char (digit_char d) :: nat) = of_char (CHR ''0'')" by simp
  with d show ?thesis by (simp add: of_char_digit_char)
qed

lemma show_nat_hd: "0 < n \<Longrightarrow> hd (show_nat n) \<noteq> CHR ''0''"
proof (induction n rule: show_nat.induct)
  case (1 n)
  show ?case
  proof (cases "n < 10")
    case True
    with "1.prems" show ?thesis
      using digit_char_zero [of n] by (auto simp: show_nat.simps [of n])
  next
    case False
    then have "0 < n div 10" by simp
    with False "1.IH" show ?thesis
      by (simp add: show_nat.simps [of n] show_nat_not_Nil)
  qed
qed

lemma show_nat_leading_zero: "\<not> (1 < length (show_nat n) \<and> hd (show_nat n) = CHR ''0'')"
proof (cases "n = 0")
  case True
  then show ?thesis by (simp add: show_nat.simps [of 0])
next
  case False
  then show ?thesis using show_nat_hd [of n] by simp
qed

definition no_digit :: "string \<Rightarrow> bool" where
  "no_digit rest = (case rest of [] \<Rightarrow> True | c # _ \<Rightarrow> \<not> is_digit c)"

lemma takeWhile_show_nat: "no_digit rest \<Longrightarrow> takeWhile is_digit (show_nat n @ rest) = show_nat n"
  by (cases rest) (auto simp: no_digit_def takeWhile_append show_nat_digits)

lemma dropWhile_show_nat: "no_digit rest \<Longrightarrow> dropWhile is_digit (show_nat n @ rest) = rest"
  by (cases rest) (auto simp: no_digit_def dropWhile_append show_nat_digits)

lemma p_digits_show_nat: "no_digit rest \<Longrightarrow> p_digits (show_nat n @ rest) = Some (n, rest)"
  using show_nat_leading_zero [of n]
  by (simp add: p_digits_def takeWhile_show_nat dropWhile_show_nat show_nat_not_Nil show_nat_value Let_def)

lemma hd_show_nat_digit: "is_digit (hd (show_nat n))"
  using show_nat_digits [of "hd (show_nat n)" n] show_nat_not_Nil [of n] by simp

lemma is_digit_not_minus: "is_digit c \<Longrightarrow> c \<noteq> CHR ''-''"
  by (auto simp: is_digit_def)

lemma p_number_show_int: "no_digit rest \<Longrightarrow> p_number (show_int i @ rest) = Some (JNum i, rest)"
proof (cases "i < 0")
  case True
  assume "no_digit rest"
  with True show ?thesis
    by (simp add: p_number_def show_int_def p_digits_show_nat)
next
  case False
  assume nd: "no_digit rest"
  obtain c r where cr: "show_nat (nat i) = c # r"
    using show_nat_not_Nil [of "nat i"] by (cases "show_nat (nat i)") auto
  have "is_digit c" using hd_show_nat_digit [of "nat i"] cr by simp
  then have "c \<noteq> CHR ''-''" by (rule is_digit_not_minus)
  moreover have "p_digits (c # r @ rest) = Some (nat i, rest)"
    using p_digits_show_nat [OF nd, of "nat i"] cr by simp
  ultimately show ?thesis using False cr
    by (simp add: p_number_def show_int_def)
qed

subsection \<open>Strings\<close>

lemma hex_val_hex_char: "d < 16 \<Longrightarrow> hex_val (hex_char d) = Some d"
  by (simp add: hex_val_def hex_char_def Let_def)

lemma hex_val_zero: "hex_val (CHR ''0'') = Some 0"
  by (simp add: hex_val_def)

lemma p_hex4_esc: "p_hex4 (CHR ''0'') (CHR ''0'') (hex_char (n div 16)) (hex_char (n mod 16)) = Some n" if "n < 32"
proof -
  from that have "n div 16 < 16" by simp
  then show ?thesis
    by (simp add: p_hex4_def hex_val_zero hex_val_hex_char)
qed

lemma p_string_esc:
  assumes "p_string tail = Some (s, r)"
  shows "p_string (esc c @ tail) = Some (c # s, r)"
proof -
  consider (special) "c \<in> {dquote, backslash, CHR 0x08, CHR 0x0C, CHR 0x0A, CHR 0x0D, CHR 0x09}"
    | (control) "c \<notin> {dquote, backslash, CHR 0x08, CHR 0x0C, CHR 0x0A, CHR 0x0D, CHR 0x09}" "(of_char c :: nat) < 32"
    | (plain) "c \<notin> {dquote, backslash, CHR 0x08, CHR 0x0C, CHR 0x0A, CHR 0x0D, CHR 0x09}" "\<not> (of_char c :: nat) < 32"
    by blast
  then show ?thesis
  proof cases
    case special
    with assms show ?thesis
      by (auto simp: esc_def unescape_def)
  next
    case control
    with assms show ?thesis
      by (simp add: esc_def p_hex4_esc)
  next
    case plain
    with assms show ?thesis
      by (simp add: esc_def)
  qed
qed

lemma p_string_quote: "p_string (concat (map esc s) @ dquote # rest) = Some (s, rest)"
  by (induction s) (simp_all add: p_string_esc)

subsection \<open>Values\<close>

lemma define_prop_fresh: "k \<notin> fst ` set acc \<Longrightarrow> define_prop acc (k, v) = acc @ [(k, v)]"
  by (induction acc) auto

lemma foldl_define_prop_distinct:
  "distinct (map fst (acc @ ps)) \<Longrightarrow> foldl define_prop acc ps = acc @ ps"
proof (induction ps arbitrary: acc)
  case Nil
  then show ?case by simp
next
  case (Cons p ps)
  obtain k v where p: "p = (k, v)" by (cases p)
  from Cons.prems p have fresh: "k \<notin> fst ` set acc" by auto
  from Cons.prems p have "distinct (map fst ((acc @ [(k, v)]) @ ps))" by auto
  then have "foldl define_prop (acc @ [(k, v)]) ps = (acc @ [(k, v)]) @ ps"
    by (rule Cons.IH)
  with fresh p show ?case by (simp add: define_prop_fresh)
qed

lemma ser_total:
  "serializable v \<Longrightarrow> \<exists>t. ser v = Inr (Some t)"
  "serializable_elems xs \<Longrightarrow> \<exists>ts. ser_elems xs = Inr ts"
  "serializable_props ps \<Longrightarrow> \<exists>ts. ser_props ps = Inr ts"
  by (induction v and xs and ps rule: ser_ser_elems_ser_props.induct) auto

definition value_start :: "string \<Rightarrow> bool" where
  "value_start t = (case t of [] \<Rightarrow> False | c # _ \<Rightarrow> \<not> is_ws c \<and> c \<noteq> CHR '']'' \<and> c \<noteq> CHR ''}'')"

lemma is_digit_start: "is_digit c \<Longrightarrow> \<not> is_ws c \<and> c \<noteq> CHR '']'' \<and> c \<noteq> CHR ''}''"
  by (auto simp: is_digit_def is_ws_def)

lemma show_int_start: "value_start (show_int i)"
proof (cases "show_nat (nat \<bar>i\<bar>)")
  case Nil
  then show ?thesis using show_nat_not_Nil by simp
next
  case (Cons c r)
  then have "is_digit c" using hd_show_nat_digit [of "nat \<bar>i\<bar>"] by simp
  then have "\<not> is_ws c \<and> c \<noteq> CHR '']'' \<and> c \<noteq> CHR ''}''" by (rule is_digit_start)
  with Cons show ?thesis
    by (cases "i < 0") (simp_all add: show_int_def value_start_def is_ws_def abs_if)
qed

lemma ser_start: "serializable v \<Longrightarrow> ser v = Inr (Some t) \<Longrightarrow> value_start t"
proof (cases v)
  case (JNum n)
  assume "ser v = Inr (Some t)"
  with JNum show ?thesis using show_int_start [of n] by simp
qed (auto simp: value_start_def is_ws_def quote_def split: sum.splits)

definition delim :: "string \<Rightarrow> bool" where
  "delim rest = (case rest of [] \<Rightarrow> True | c # _ \<Rightarrow> c = CHR '','' \<or> c = CHR '']'' \<or> c = CHR ''}'')"

lemma delim_no_digit: "delim rest \<Longrightarrow> no_digit rest"
  by (auto simp: delim_def no_digit_def is_digit_def split: list.splits)

lemma delim_simps: "delim (CHR '','' # r)" "delim (CHR '']'' # r)" "delim (CHR ''}'' # r)" "delim []"
  by (simp_all add: delim_def)

lemma skip_ws_start: "value_start t \<Longrightarrow> skip_ws (t @ rest) = t @ rest"
  by (cases t) (simp_all add: value_start_def skip_ws_def)

lemma skip_ws_punct:
  "skip_ws (CHR '','' # r) = CHR '','' # r"
  "skip_ws (CHR '']'' # r) = CHR '']'' # r"
  "skip_ws (CHR ''}'' # r) = CHR ''}'' # r"
  "skip_ws (CHR '':'' # r) = CHR '':'' # r"
  "skip_ws (dquote # r) = dquote # r"
  by (simp_all add: skip_ws_def is_ws_def)

lemma join_Cons: "ts \<noteq> [] \<Longrightarrow> join (t # ts) = t @ CHR '','' # join ts"
  by (cases ts) simp_all

lemma value_start_append: "value_start t \<Longrightarrow> value_start (t @ u)"
  by (cases t) (simp_all add: value_start_def)

lemma value_start_join: "value_start t \<Longrightarrow> value_start (join (t # ts))"
  by (cases ts) (simp_all add: value_start_append)

lemma ser_elems_length: "ser_elems xs = Inr ts \<Longrightarrow> length ts = length xs"
  by (induction xs arbitrary: ts) (auto split: sum.splits)

lemma ser_props_length:
  "serializable_props ps \<Longrightarrow> ser_props ps = Inr ts \<Longrightarrow> length ts = length ps"
proof (induction ps arbitrary: ts)
  case Nil
  then show ?case by simp
next
  case (Cons p ps)
  obtain k x where p: "p = (k, x)" by (cases p)
  with Cons.prems obtain t where t: "ser x = Inr (Some t)"
    using ser_total(1) [of x] by auto
  with Cons p show ?case
    by (auto split: sum.splits)
qed

lemma value_start_quote: "value_start (quote k @ u)"
  by (simp add: value_start_def quote_def is_ws_def)

lemma p_elems_last:
  assumes "p_value f (t @ CHR '']'' # rest) = Some (x, CHR '']'' # rest)"
  shows "p_elems (Suc f) (t @ CHR '']'' # rest) = Some ([x], rest)"
  using assms by (simp add: skip_ws_punct)

lemma p_elems_more:
  assumes "p_value f (t @ CHR '','' # later) = Some (x, CHR '','' # later)"
    and "p_elems f later = Some (xs, rest)"
  shows "p_elems (Suc f) (t @ CHR '','' # later) = Some (x # xs, rest)"
  using assms by (simp add: skip_ws_punct)

lemma p_members_last:
  assumes "p_value f (t @ CHR ''}'' # rest) = Some (x, CHR ''}'' # rest)"
  shows "p_members (Suc f) (quote k @ CHR '':'' # t @ CHR ''}'' # rest) = Some ([(k, x)], rest)"
  using assms by (simp add: skip_ws_punct quote_def p_string_quote)

lemma p_members_more:
  assumes "p_value f (t @ CHR '','' # later) = Some (x, CHR '','' # later)"
    and "p_members f later = Some (ms, rest)"
  shows "p_members (Suc f) (quote k @ CHR '':'' # t @ CHR '','' # later) = Some ((k, x) # ms, rest)"
  using assms by (simp add: skip_ws_punct quote_def p_string_quote)

lemma p_value_array:
  assumes "value_start j" and "p_elems f (j @ CHR '']'' # rest) = Some (xs, rest)"
  shows "p_value (Suc f) (CHR ''['' # j @ CHR '']'' # rest) = Some (JArr xs, rest)"
proof -
  from assms(1) obtain d r where j: "j = d # r" and d: "\<not> is_ws d" "d \<noteq> CHR '']''"
    by (cases j) (auto simp: value_start_def)
  have "skip_ws (CHR ''['' # j @ CHR '']'' # rest) = CHR ''['' # j @ CHR '']'' # rest"
    by (simp add: skip_ws_def is_ws_def)
  moreover have "skip_ws (j @ CHR '']'' # rest) = d # r @ CHR '']'' # rest"
    using j d by (simp add: skip_ws_def)
  ultimately show ?thesis using assms(2) d j by simp
qed

lemma p_value_object:
  assumes "value_start j" and "p_members f (j @ CHR ''}'' # rest) = Some (ms, rest)"
  shows "p_value (Suc f) (CHR ''{'' # j @ CHR ''}'' # rest) = Some (JObj (foldl define_prop [] ms), rest)"
proof -
  from assms(1) obtain d r where j: "j = d # r" and d: "\<not> is_ws d" "d \<noteq> CHR ''}''"
    by (cases j) (auto simp: value_start_def)
  have "skip_ws (CHR ''{'' # j @ CHR ''}'' # rest) = CHR ''{'' # j @ CHR ''}'' # rest"
    by (simp add: skip_ws_def is_ws_def)
  moreover have "skip_ws (j @ CHR ''}'' # rest) = d # r @ CHR ''}'' # rest"
    using j d by (simp add: skip_ws_def)
  ultimately show ?thesis using assms(2) d j by simp
qed

lemma p_value_number:
  assumes "delim rest"
  shows "p_value (Suc f) (show_int i @ rest) = Some (JNum i, rest)"
proof -
  obtain c r where cr: "show_int i = c # r" and ws: "\<not> is_ws c"
    using show_int_start [of i] by (cases "show_int i") (auto simp: value_start_def)
  have c: "c = CHR ''-'' \<or> is_digit c"
    using cr hd_show_nat_digit [of "nat i"]
    by (cases "i < 0") (auto simp: show_int_def)
  then have other: "c \<noteq> CHR ''n''" "c \<noteq> CHR ''t''" "c \<noteq> CHR ''f''" "c \<noteq> dquote" "c \<noteq> CHR ''[''" "c \<noteq> CHR ''{''"
    by (auto simp: is_digit_def)
  have "skip_ws (show_int i @ rest) = c # r @ rest"
    using cr ws by (simp add: skip_ws_def)
  moreover have "p_number (c # r @ rest) = Some (JNum i, rest)"
    using p_number_show_int [OF delim_no_digit [OF assms], of i] cr by simp
  ultimately show ?thesis using c other by simp
qed

lemma p_value_ser:
  "serializable v \<Longrightarrow> ser v = Inr (Some t) \<Longrightarrow> length t < f \<Longrightarrow> delim rest
     \<Longrightarrow> p_value f (t @ rest) = Some (v, rest)"
  "xs \<noteq> [] \<Longrightarrow> serializable_elems xs \<Longrightarrow> ser_elems xs = Inr ts \<Longrightarrow> length (join ts) + 1 < f
     \<Longrightarrow> p_elems f (join ts @ CHR '']'' # rest) = Some (xs, rest)"
  "ps \<noteq> [] \<Longrightarrow> serializable_props ps \<Longrightarrow> ser_props ps = Inr ts \<Longrightarrow> length (join ts) + 1 < f
     \<Longrightarrow> p_members f (join ts @ CHR ''}'' # rest) = Some (ps, rest)"
proof (induction v and xs and ps arbitrary: t f rest and ts f rest and ts f rest
    rule: ser_ser_elems_ser_props.induct)
  case 1
  then show ?case by simp
next
  case 2
  then obtain f' where "f = Suc f'" by (cases f) auto
  with 2 show ?case by (auto simp: skip_ws_def is_ws_def)
next
  case (3 b)
  then obtain f' where "f = Suc f'" by (cases f) auto
  with 3 show ?case by (auto simp: skip_ws_def is_ws_def)
next
  case (4 n)
  then obtain f' where "f = Suc f'" by (cases f) auto
  then have f: "f = Suc f'" .
  from "4.prems" have t: "t = show_int n" by simp
  from "4.prems" have "p_value (Suc f') (show_int n @ rest) = Some (JNum n, rest)"
    by (intro p_value_number)
  then show ?case unfolding t f .
next
  case (5 n)
  then show ?case by simp
next
  case (6 s)
  then obtain f' where "f = Suc f'" by (cases f) auto
  with 6 show ?case by (auto simp: skip_ws_punct quote_def p_string_quote)
next
  case (7 xs)
  from "7.prems" obtain ts where ts: "ser_elems xs = Inr ts" and t: "t = CHR ''['' # join ts @ '']''"
    by (auto split: sum.splits)
  from "7.prems" t obtain f' where f: "f = Suc f'" and len: "length (join ts) + 1 < f'"
    by (cases f) auto
  show ?case
  proof (cases xs)
    case Nil
    with ts t f show ?thesis by (simp add: skip_ws_def is_ws_def)
  next
    case (Cons x xs')
    with "7.prems" ts obtain t1 ts' where ts1: "ts = t1 # ts'" and t1: "ser x = Inr (Some t1)"
      using ser_total(1) [of x] by (auto split: sum.splits)
    from Cons "7.prems" t1 have "value_start t1" by (auto intro: ser_start)
    then have start: "value_start (join ts)" unfolding ts1 by (rule value_start_join)
    from Cons have "xs \<noteq> []" by simp
    then have "p_elems f' (join ts @ CHR '']'' # rest) = Some (xs, rest)"
      using "7.prems" ts len by (intro "7.IH") auto
    with start have "p_value (Suc f') (CHR ''['' # join ts @ CHR '']'' # rest) = Some (JArr xs, rest)"
      by (rule p_value_array)
    then show ?thesis unfolding t f by (simp del: p_value.simps)
  qed
next
  case (8 ps)
  from "8.prems" obtain ts where ts: "ser_props ps = Inr ts" and t: "t = CHR ''{'' # join ts @ ''}''"
    by (auto split: sum.splits)
  from "8.prems" t obtain f' where f: "f = Suc f'" and len: "length (join ts) + 1 < f'"
    by (cases f) auto
  from "8.prems" have dist: "distinct (map fst ps)" by simp
  show ?case
  proof (cases ps)
    case Nil
    with ts t f show ?thesis by (simp add: skip_ws_def is_ws_def)
  next
    case (Cons p ps')
    obtain k x where p: "p = (k, x)" by (cases p)
    with Cons "8.prems" ts obtain t1 ts' where ts1: "ts = (quote k @ CHR '':'' # t1) # ts'"
      using ser_total(1) [of x] by (auto split: sum.splits)
    have start: "value_start (join ts)" unfolding ts1
      using value_start_quote by (intro value_start_join) simp
    from Cons have "ps \<noteq> []" by simp
    then have "p_members f' (join ts @ CHR ''}'' # rest) = Some (ps, rest)"
      using "8.prems" ts len by (intro "8.IH") auto
    with start have "p_value (Suc f') (CHR ''{'' # join ts @ CHR ''}'' # rest) = Some (JObj (foldl define_prop [] ps), rest)"
      by (rule p_value_object)
    moreover have "foldl define_prop [] ps = ps"
      using foldl_define_prop_distinct [of "[]" ps] dist by simp
    ultimately show ?thesis unfolding t f by (simp del: p_value.simps)
  qed
next
  case 9
  then show ?case by simp
next
  case (10 x xs)
  from "10.prems" obtain t1 where t1: "ser x = Inr (Some t1)"
    using ser_total(1) [of x] by auto
  from "10.prems" t1 obtain ts' where ts': "ser_elems xs = Inr ts'" and ts: "ts = t1 # ts'"
    by (auto split: sum.splits)
  from "10.prems" obtain f' where f: "f = Suc f'" by (cases f) auto
  from "10.prems" have sx: "serializable x" and sxs: "serializable_elems xs" by simp_all
  show ?case
  proof (cases "xs = []")
    case True
    with ts' have "ts' = []" by simp
    with ts "10.prems" f have len: "length t1 < f'" by simp
    have "p_value f' (t1 @ CHR '']'' # rest) = Some (x, CHR '']'' # rest)"
      using sx t1 len by (intro "10.IH"(1)) (simp_all add: delim_simps)
    then have "p_elems (Suc f') (t1 @ CHR '']'' # rest) = Some ([x], rest)"
      by (rule p_elems_last)
    with True ts \<open>ts' = []\<close> f show ?thesis by (simp del: p_elems.simps p_members.simps)
  next
    case False
    with ts' have ne: "ts' \<noteq> []" using ser_elems_length [of xs ts'] by auto
    then have j: "join ts = t1 @ CHR '','' # join ts'" unfolding ts by (rule join_Cons)
    with "10.prems" f have len1: "length t1 < f'" and len2: "length (join ts') + 1 < f'"
      by simp_all
    have a: "p_value f' (t1 @ CHR '','' # (join ts' @ CHR '']'' # rest)) = Some (x, CHR '','' # (join ts' @ CHR '']'' # rest))"
      using sx t1 len1 by (intro "10.IH"(1)) (simp_all add: delim_simps)
    have b: "p_elems f' (join ts' @ CHR '']'' # rest) = Some (xs, rest)"
      using False sxs ts' len2 t1 by (intro "10.IH"(2)) simp_all
    from a b have "p_elems (Suc f') (t1 @ CHR '','' # (join ts' @ CHR '']'' # rest)) = Some (x # xs, rest)"
      by (rule p_elems_more)
    with j f show ?thesis by (simp del: p_elems.simps p_members.simps)
  qed
next
  case 11
  then show ?case by simp
next
  case (12 k x ps)
  from "12.prems" obtain t1 where t1: "ser x = Inr (Some t1)"
    using ser_total(1) [of x] by auto
  from "12.prems" t1 obtain ts' where ts': "ser_props ps = Inr ts'"
    and ts: "ts = (quote k @ CHR '':'' # t1) # ts'"
    by (auto split: sum.splits)
  from "12.prems" obtain f' where f: "f = Suc f'" by (cases f) auto
  from "12.prems" have sx: "serializable x" and sps: "serializable_props ps" by simp_all
  show ?case
  proof (cases "ps = []")
    case True
    with ts' have "ts' = []" by simp
    with ts "12.prems" f have len: "length t1 < f'" by simp
    have "p_value f' (t1 @ CHR ''}'' # rest) = Some (x, CHR ''}'' # rest)"
      using sx t1 len by (intro "12.IH"(1)) (simp_all add: delim_simps)
    then have "p_members (Suc f') (quote k @ CHR '':'' # t1 @ CHR ''}'' # rest) = Some ([(k, x)], rest)"
      by (rule p_members_last)
    with True ts \<open>ts' = []\<close> f show ?thesis by (simp del: p_elems.simps p_members.simps)
  next
    case False
    with ts' sps have ne: "ts' \<noteq> []" using ser_props_length [of ps ts'] by auto
    then have j: "join ts = (quote k @ CHR '':'' # t1) @ CHR '','' # join ts'"
      unfolding ts by (rule join_Cons)
    with "12.prems" f have len1: "length t1 < f'" and len2: "length (join ts') + 1 < f'"
      by simp_all
    have a: "p_value f' (t1 @ CHR '','' # (join ts' @ CHR ''}'' # rest)) = Some (x, CHR '','' # (join ts' @ CHR ''}'' # rest))"
      using sx t1 len1 by (intro "12.IH"(1)) (simp_all add: delim_simps)
    have b: "p_members f' (join ts' @ CHR ''}'' # rest) = Some (ps, rest)"
      using False sps ts' len2 t1 by (intro "12.IH"(2)) simp_all
    from a b have "p_members (Suc f') (quote k @ CHR '':'' # t1 @ CHR '','' # (join ts' @ CHR ''}'' # rest)) = Some ((k, x) # ps, rest)"
      by (rule p_members_more)
    with j f show ?thesis by (simp del: p_elems.simps p_members.simps)
  qed
qed

lemma JSON_roundtrip:
  assumes "serializable v"
  shows "\<exists>t. JSON_stringify v = Inr (Some t) \<and> JSON_parse t = Inr v"
proof -
  from assms obtain t where t: "ser v = Inr (Some t)"
    using ser_total(1) by blast
  have "p_value (Suc (length t)) (t @ []) = Some (v, [])"
    using assms t by (intro p_value_ser(1)) (simp_all add: delim_simps)
  then have "JSON_parse t = Inr v"
    by (simp add: JSON_parse_def skip_ws_def)
  with t show ?thesis by (simp add: JSON_stringify_def)
qed

section \<open>The store\<close>

subsection \<open>The backend's slots\<close>

lemma map_of_put_slot: "map_of (put_slot ss k t) = (map_of ss)(k \<mapsto> t)"
  by (induction ss) (auto simp: fun_eq_iff)

lemma keys_put_slot:
  "map fst (put_slot ss k t) = (if k \<in> set (map fst ss) then map fst ss else map fst ss @ [k])"
  by (induction ss) (fastforce+)

lemma count_put_slot:
  "distinct (map fst ss) \<Longrightarrow> count_list (map fst (put_slot ss k t)) k = 1"
proof (induction ss)
  case Nil
  then show ?case by simp
next
  case (Cons s ss)
  then show ?case
    by (cases s) (auto simp: count_list_0_iff)
qed

lemma set_try_cases:
  "set_try (JStr k) data this =
     (case JSON_stringify data of
        Inl e \<Rightarrow> Inl e
      | Inr None \<Rightarrow>
          (case PROPERTIES this of
             None \<Rightarrow> Inl TypeError
           | Some b \<Rightarrow> Inr (this\<lparr>PROPERTIES := Some (b\<lparr>slots := filter (\<lambda>s. fst s \<noteq> k) (slots b)\<rparr>)\<rparr>))
      | Inr (Some t) \<Rightarrow>
          (case PROPERTIES this of
             None \<Rightarrow> Inl TypeError
           | Some b \<Rightarrow>
               if slot_limit b < length t then Inl HostError
               else Inr (this\<lparr>PROPERTIES := Some (b\<lparr>slots := put_slot (slots b) k t\<rparr>)\<rparr>)))"
  by (simp add: set_try_def setDynamicProperty_def split: sum.splits option.splits)

lemma isString_iff: "Validator_isString key \<longleftrightarrow> (\<exists>k. key = JStr k)"
  by (cases key) (simp_all add: Validator_isString_def)

lemma isObject_iff: "Validator_isObject data \<longleftrightarrow> (\<exists>ps. data = JObj ps)"
  by (cases data) (simp_all add: Validator_isObject_def)

lemma ser_object_text: "\<exists>r. ser (JObj ps) = Inl r \<or> (\<exists>t. ser (JObj ps) = Inr (Some t))"
  by (auto split: sum.splits)

lemma filter_absent: "k \<notin> set (map fst ss) \<Longrightarrow> filter (\<lambda>s. fst s \<noteq> k) ss = ss"
  by (induction ss) auto

lemma hasKey_bound:
  "PROPERTIES this = Some b \<Longrightarrow> hasKey (JStr k) this = Inr (k \<in> set (map fst (slots b)))"
  by (auto simp: hasKey_def keys_def getDynamicPropertyIds_def)

lemma hasKey_unbound: "PROPERTIES this = None \<Longrightarrow> hasKey key this = Inl TypeError"
  by (simp add: hasKey_def keys_def)

lemma hasKey_not_string:
  "PROPERTIES this = Some b \<Longrightarrow> \<not> Validator_isString key \<Longrightarrow> hasKey key this = Inr False"
  by (cases key) (auto simp: hasKey_def keys_def Validator_isString_def)

lemma delete_PROPERTIES:
  "PROPERTIES (snd (delete key this)) =
     (case (PROPERTIES this, key) of
        (Some b, JStr k) \<Rightarrow> Some (b\<lparr>slots := filter (\<lambda>s. fst s \<noteq> k) (slots b)\<rparr>)
      | _ \<Rightarrow> PROPERTIES this)"
proof (cases "PROPERTIES this")
  case None
  then show ?thesis
    by (simp add: delete_def hasKey_unbound log_PROPERTIES)
next
  case (Some b)
  show ?thesis
  proof (cases "\<exists>k. key = JStr k")
    case True
    then obtain k where k: "key = JStr k" by blast
    show ?thesis
    proof (cases "k \<in> set (map fst (slots b))")
      case True
      with Some k show ?thesis
        by (simp add: delete_def hasKey_bound Validator_isString_def setDynamicProperty_def)
    next
      case False
      then have "filter (\<lambda>s. fst s \<noteq> k) (slots b) = slots b" by (rule filter_absent)
      with False Some k show ?thesis
        by (simp add: delete_def hasKey_bound Validator_isString_def log_PROPERTIES)
    qed
  next
    case False
    then have "\<not> Validator_isString key" by (simp add: isString_iff)
    with Some False show ?thesis
      by (cases key) (simp_all add: delete_def log_PROPERTIES)
  qed
qed

lemma map_of_in_keys: "map_of ss k = Some t \<Longrightarrow> k \<in> set (map fst ss)"
  by (induction ss) (auto split: if_splits)

lemma get_stored:
  assumes "PROPERTIES this = Some b" and "map_of (slots b) k = Some t"
  shows "get (JStr k) this = (JSON_parse t, this)"
  using assms map_of_in_keys [OF assms(2)]
  by (simp add: get_def Validator_isString_def hasKey_bound getDynamicProperty_def)

lemma get_missing:
  assumes "PROPERTIES this = Some b" and "k \<notin> set (map fst (slots b))"
  shows "get (JStr k) this = (Inr JUndefined, log ''DynamicDB'' ''get'' (missing_key (JStr k)) this)"
  using assms by (simp add: get_def Validator_isString_def hasKey_bound)

lemma get_not_string:
  assumes "\<not> Validator_isString key"
  shows "get key this = (Inr JUndefined, log ''DynamicDB'' ''get'' ''Key must be a string.'' this)"
  using assms by (simp add: get_def)

lemma get_unreadable:
  assumes "PROPERTIES this = Some b" and "map_of (slots b) k = Some t" and "JSON_parse t = Inl e"
  shows "get (JStr k) this = (Inl e, this)"
  using get_stored [OF assms(1,2)] assms(3) by simp

lemma get_result_PROPERTIES:
  "PROPERTIES this = PROPERTIES that \<Longrightarrow> fst (get key this) = fst (get key that)"
  by (simp add: get_def hasKey_def keys_def split: sum.splits bool.splits option.splits)

lemma keys_log: "keys (log u l m this) = keys this"
  by (simp add: keys_def log_PROPERTIES)

lemma set_db_object:
  assumes "PROPERTIES this = Some b" and "Validator_isObject v" and "JSON_stringify v = Inr (Some t)"
  shows "set_db (JStr k) v this =
     (if slot_limit b < length t
      then (Inr False, log ''DynamicDB'' ''set'' ''Failed to serialize data.'' this)
      else (Inr True, this\<lparr>PROPERTIES := Some (b\<lparr>slots := put_slot (slots b) k t\<rparr>)\<rparr>))"
  using assms by (simp add: set_db_def Validator_isString_def set_try_cases)

lemma set_db_True:
  assumes "fst (set_db key v this) = Inr True"
  obtains k b t where "key = JStr k" and "Validator_isObject v" and "PROPERTIES this = Some b"
    and "JSON_stringify v = Inr (Some t)" and "length t \<le> slot_limit b"
    and "snd (set_db key v this) = this\<lparr>PROPERTIES := Some (b\<lparr>slots := put_slot (slots b) k t\<rparr>)\<rparr>"
proof -
  from assms have str: "Validator_isString key" and obj: "Validator_isObject v"
    by (auto simp: set_db_def split: if_splits)
  then obtain k ps where k: "key = JStr k" and ps: "v = JObj ps"
    by (auto simp: isString_iff isObject_iff)
  from assms str obj obtain this' where tr: "set_try key v this = Inr this'"
    by (auto simp: set_db_def split: sum.splits)
  from ser_object_text [of ps] tr ps k obtain t where t: "JSON_stringify v = Inr (Some t)"
    by (auto simp: set_try_def JSON_stringify_def)
  from tr t obtain b where b: "PROPERTIES this = Some b"
    by (auto simp: set_try_def split: option.splits)
  from tr have "length t \<le> slot_limit b"
    unfolding k set_try_cases using t b by (auto split: if_splits)
  moreover from this have "snd (set_db key v this) = this\<lparr>PROPERTIES := Some (b\<lparr>slots := put_slot (slots b) k t\<rparr>)\<rparr>"
    unfolding k using set_db_object [OF b obj t, of k] by simp
  ultimately show ?thesis using that k obj b t by blast
qed

lemma get_after_put:
  assumes "PROPERTIES this = Some b"
  shows "get (JStr k) (this\<lparr>PROPERTIES := Some (b\<lparr>slots := put_slot (slots b) k t\<rparr>)\<rparr>)
       = (JSON_parse t, this\<lparr>PROPERTIES := Some (b\<lparr>slots := put_slot (slots b) k t\<rparr>)\<rparr>)"
  by (rule get_stored [where b = "b\<lparr>slots := put_slot (slots b) k t\<rparr>"]) (simp_all add: map_of_put_slot)

subsection \<open>Object spread\<close>

lemma map_of_define_prop: "map_of (define_prop acc kv) = (map_of acc)(fst kv \<mapsto> snd kv)"
  by (induction acc) (auto simp: fun_eq_iff)

lemma keys_define_prop:
  "map fst (define_prop acc kv) =
     (if fst kv \<in> set (map fst acc) then map fst acc else map fst acc @ [fst kv])"
  by (induction acc) (fastforce+)

lemma distinct_define_prop: "distinct (map fst acc) \<Longrightarrow> distinct (map fst (define_prop acc kv))"
  by (simp add: keys_define_prop)

lemma distinct_foldl_define_prop:
  "distinct (map fst acc) \<Longrightarrow> distinct (map fst (foldl define_prop acc xs))"
  by (induction xs arbitrary: acc) (simp_all add: distinct_define_prop)

lemma map_of_foldl_define_prop:
  "distinct (map fst xs) \<Longrightarrow> map_of (foldl define_prop acc xs) = map_of acc ++ map_of xs"
proof (induction xs arbitrary: acc)
  case Nil
  then show ?case by simp
next
  case (Cons x xs)
  obtain k v where x: "x = (k, v)" by (cases x)
  from Cons.prems x have fresh: "map_of xs k = None"
    by (simp add: map_of_eq_None_iff)
  from Cons.prems have "map_of (foldl define_prop (define_prop acc x) xs) = map_of (define_prop acc x) ++ map_of xs"
    by (intro Cons.IH) simp
  also have "\<dots> = map_of acc ++ map_of (x # xs)"
    using fresh x by (auto simp: map_of_define_prop fun_eq_iff map_add_def split: option.splits)
  finally show ?case by (simp only: foldl_Cons)
qed

lemma dataMerge_object:
  assumes "distinct (map fst ps)" and "distinct (map fst (own_props existing))"
  shows "\<exists>ms. dataMerge existing (JObj ps) = JObj ms \<and> distinct (map fst ms)
           \<and> map_of ms = map_of (own_props existing) ++ map_of ps"
proof -
  let ?es = "foldl define_prop [] (own_props existing)"
  have "map_of ?es = map_of (own_props existing)"
    using map_of_foldl_define_prop [OF assms(2), of "[]"] by simp
  then have "map_of (foldl define_prop ?es ps) = map_of (own_props existing) ++ map_of ps"
    using map_of_foldl_define_prop [OF assms(1), of ?es] by simp
  moreover have "distinct (map fst (foldl define_prop ?es ps))"
    by (intro distinct_foldl_define_prop) simp
  ultimately show ?thesis
    by (simp add: dataMerge_def own_props_def)
qed

lemma dataMerge_absent:
  "dataMerge JUndefined newData = dataMerge (JObj []) newData"
  "distinct (map fst ps) \<Longrightarrow> dataMerge JUndefined (JObj ps) = JObj ps"
  using foldl_define_prop_distinct [of "[]" ps]
  by (simp_all add: dataMerge_def own_props_def)

subsection \<open>Loops over the snapshot\<close>

lemma find_loop_drop:
  "find_loop callbackfn entries_arr entries_idx this = find_first callbackfn (drop entries_idx entries_arr) this"
proof (induction callbackfn entries_arr entries_idx this rule: find_loop.induct)
  case (1 callbackfn entries_arr entries_idx this)
  show ?case
  proof (cases "entries_idx < length entries_arr")
    case True
    then have d: "drop entries_idx entries_arr = entries_arr ! entries_idx # drop (Suc entries_idx) entries_arr"
      by (simp add: Cons_nth_drop_Suc)
    obtain key v where kv: "entries_arr ! entries_idx = (key, v)"
      by (cases "entries_arr ! entries_idx")
    obtain r this1 where cb: "callbackfn v key this = (r, this1)"
      by (cases "callbackfn v key this")
    show ?thesis
    proof (cases r)
      case (Inl e)
      with True d kv cb show ?thesis
        by (simp add: find_loop.simps [of callbackfn entries_arr entries_idx this])
    next
      case (Inr found)
      show ?thesis
      proof (cases found)
        case True
        with Inr \<open>entries_idx < length entries_arr\<close> d kv cb show ?thesis
          by (simp add: find_loop.simps [of callbackfn entries_arr entries_idx this])
      next
        case False
        then have "found = False" by simp
        with \<open>entries_idx < length entries_arr\<close> kv [symmetric] cb [symmetric] Inr
        have "find_loop callbackfn entries_arr (Suc entries_idx) this1
            = find_first callbackfn (drop (Suc entries_idx) entries_arr) this1"
          by (rule "1.IH")
        with False Inr \<open>entries_idx < length entries_arr\<close> d kv cb show ?thesis
          by (simp add: find_loop.simps [of callbackfn entries_arr entries_idx this])
      qed
    qed
  next
    case False
    then show ?thesis
      by (simp add: find_loop.simps [of callbackfn entries_arr entries_idx this])
  qed
qed

lemma forEach_loop_drop:
  "forEach_loop callbackfn entries_arr entries_idx this = visit_all callbackfn (drop entries_idx entries_arr) this"
proof (induction callbackfn entries_arr entries_idx this rule: forEach_loop.induct)
  case (1 callbackfn entries_arr entries_idx this)
  show ?case
  proof (cases "entries_idx < length entries_arr")
    case True
    then have d: "drop entries_idx entries_arr = entries_arr ! entries_idx # drop (Suc entries_idx) entries_arr"
      by (simp add: Cons_nth_drop_Suc)
    obtain key v where kv: "entries_arr ! entries_idx = (key, v)"
      by (cases "entries_arr ! entries_idx")
    obtain r this1 where cb: "callbackfn v key this = (r, this1)"
      by (cases "callbackfn v key this")
    show ?thesis
    proof (cases r)
      case (Inl e)
      with True d kv cb show ?thesis
        by (simp add: forEach_loop.simps [of callbackfn entries_arr entries_idx this])
    next
      case (Inr u)
      with True kv [symmetric] cb [symmetric]
      have "forEach_loop callbackfn entries_arr (Suc entries_idx) this1
          = visit_all callbackfn (drop (Suc entries_idx) entries_arr) this1"
        by (rule "1.IH")
      with Inr True d kv cb show ?thesis
        by (simp add: forEach_loop.simps [of callbackfn entries_arr entries_idx this])
    qed
  next
    case False
    then show ?thesis
      by (simp add: forEach_loop.simps [of callbackfn entries_arr entries_idx this])
  qed
qed

lemma values_pull_yield:
  "values_pull (VYield entries_arr entries_idx) later
     = take (length later) (map snd (drop (Suc entries_idx) entries_arr))"
proof (induction later arbitrary: entries_idx)
  case Nil
  then show ?case by simp
next
  case (Cons this later)
  show ?case
  proof (cases "Suc entries_idx < length entries_arr")
    case True
    then have "drop (Suc entries_idx) entries_arr
        = entries_arr ! Suc entries_idx # drop (Suc (Suc entries_idx)) entries_arr"
      by (simp add: Cons_nth_drop_Suc)
    with True Cons.IH [of "Suc entries_idx"] show ?thesis
      by (simp add: values_next_def values_test_def)
  next
    case False
    then show ?thesis
      by (simp add: values_next_def values_test_def)
  qed
qed

lemma two_store_entries:
  "entries two_store = (Inr [(JStr ''a'', JObj [(''n'', JNum 1)]), (JStr ''b'', JObj [(''n'', JNum 2)])], two_store)"
  by code_simp

lemma entries_unbound: "PROPERTIES this = None \<Longrightarrow> entries this = (Inl TypeError, this)"
  by (simp add: entries_def entries_loop.simps [of 0 this] keys_def)

section \<open>Claims\<close>

text \<open>
  C1: \<open>get(k)\<close> is claimed to return absent, never to throw, also when the stored text
  for \<open>k\<close> fails to deserialize. At the store below the slot \<open>a\<close> exists, its text
  \<open>{bad\<close> is rejected by \<open>JSON.parse\<close>, and \<open>get("a")\<close> ends in that \<open>SyntaxError\<close>, with
  nothing logged: the call to \<open>JSON.parse\<close> is not guarded.
\<close>

theorem get_corrupt_text_throws:
  "hasKey (JStr ''a'') corrupt_store = Inr True
   \<and> getDynamicProperty \<lparr>slots = [(''a'', ''{bad''), (''b'', ''{}'')], slot_limit = 100\<rparr> (JStr ''a'') = Inr (Some ''{bad'')
   \<and> JSON_parse ''{bad'' = Inl SyntaxError
   \<and> get (JStr ''a'') corrupt_store = (Inl SyntaxError, corrupt_store)"
  by code_simp

text \<open>
  C2, as stated, fails: with a single-slot limit of 8 the 18 characters of the text of
  \<open>long_value\<close> exceed the limit, \<open>set\<close> returns false and writes nothing, and afterwards
  \<open>get("k")\<close> is absent and \<open>keys\<close> is empty.
\<close>

theorem chunked_set_counterexample:
  "slot_limit \<lparr>slots = [], slot_limit = 8\<rparr> < length ''{\"a\":\"0123456789\"}''
   \<and> JSON_stringify long_value = Inr (Some ''{\"a\":\"0123456789\"}'')
   \<and> fst (set_db (JStr ''k'') long_value (empty_store 8)) = Inr False
   \<and> PROPERTIES (snd (set_db (JStr ''k'') long_value (empty_store 8))) = Some \<lparr>slots = [], slot_limit = 8\<rparr>
   \<and> fst (get (JStr ''k'') (snd (set_db (JStr ''k'') long_value (empty_store 8)))) = Inr JUndefined
   \<and> keys (snd (set_db (JStr ''k'') long_value (empty_store 8))) = Inr []"
  by code_simp

text \<open>
  C2, amended: \<open>set\<close> never splits a value and writes no manifest; it writes the whole
  serialized text to the one slot named \<open>k\<close>. When the length of the text exceeds the
  single-slot limit the backend refuses the write: \<open>set(k, v)\<close> returns false, logs
  \<open>Failed to serialize data.\<close> and leaves the backend as it was, so \<open>keys\<close> and every
  \<open>get\<close> answer as before. When it does not, \<open>set(k, v)\<close> returns true, slot \<open>k\<close> holds the
  text and no other slot changes, \<open>keys\<close> is the backend's ids as they are and (the ids
  being distinct) lists \<open>k\<close> exactly once, and \<open>get(k)\<close> returns a value equal to \<open>v\<close> for
  serializable \<open>v\<close>.
\<close>

theorem set_writes_one_slot_or_none:
  assumes "PROPERTIES this = Some b" and "Validator_isObject v" and "JSON_stringify v = Inr (Some t)"
  shows "(slot_limit b < length t \<longrightarrow>
            set_db (JStr k) v this = (Inr False, log ''DynamicDB'' ''set'' ''Failed to serialize data.'' this)
            \<and> PROPERTIES (snd (set_db (JStr k) v this)) = Some b
            \<and> keys (snd (set_db (JStr k) v this)) = keys this
            \<and> fst (get key (snd (set_db (JStr k) v this))) = fst (get key this))
       \<and> (length t \<le> slot_limit b \<longrightarrow>
            fst (set_db (JStr k) v this) = Inr True
            \<and> PROPERTIES (snd (set_db (JStr k) v this)) = Some (b\<lparr>slots := put_slot (slots b) k t\<rparr>)
            \<and> map_of (put_slot (slots b) k t) = (map_of (slots b))(k \<mapsto> t)
            \<and> keys (snd (set_db (JStr k) v this)) = Inr (map fst (put_slot (slots b) k t))
            \<and> (distinct (getDynamicPropertyIds b) \<longrightarrow> count_list (map fst (put_slot (slots b) k t)) k = 1)
            \<and> (serializable v \<longrightarrow> fst (get (JStr k) (snd (set_db (JStr k) v this))) = Inr v))"
proof (intro conjI impI)
  assume big: "slot_limit b < length t"
  with set_db_object [OF assms, of k]
  show r: "set_db (JStr k) v this = (Inr False, log ''DynamicDB'' ''set'' ''Failed to serialize data.'' this)"
    by simp
  from r assms(1) show p: "PROPERTIES (snd (set_db (JStr k) v this)) = Some b"
    by (simp add: log_PROPERTIES)
  from r show "keys (snd (set_db (JStr k) v this)) = keys this"
    by (simp add: keys_log)
  from p assms(1) show "fst (get key (snd (set_db (JStr k) v this))) = fst (get key this)"
    by (intro get_result_PROPERTIES) simp
next
  assume fits: "length t \<le> slot_limit b"
  with set_db_object [OF assms, of k]
  have r: "set_db (JStr k) v this = (Inr True, this\<lparr>PROPERTIES := Some (b\<lparr>slots := put_slot (slots b) k t\<rparr>)\<rparr>)"
    by simp
  from r show "fst (set_db (JStr k) v this) = Inr True" by simp
  from r show "PROPERTIES (snd (set_db (JStr k) v this)) = Some (b\<lparr>slots := put_slot (slots b) k t\<rparr>)"
    by simp
  show "map_of (put_slot (slots b) k t) = (map_of (slots b))(k \<mapsto> t)"
    by (rule map_of_put_slot)
  from r show "keys (snd (set_db (JStr k) v this)) = Inr (map fst (put_slot (slots b) k t))"
    by (simp add: keys_def getDynamicPropertyIds_def)
  {
    assume "distinct (getDynamicPropertyIds b)"
    then show "count_list (map fst (put_slot (slots b) k t)) k = 1"
      unfolding getDynamicPropertyIds_def by (rule count_put_slot)
  }
  {
    assume "serializable v"
    from JSON_roundtrip [OF this] assms(3) have "JSON_parse t = Inr v" by auto
    with get_after_put [OF assms(1), of k t] r
    show "fst (get (JStr k) (snd (set_db (JStr k) v this))) = Inr v" by simp
  }
qed

theorem set_writes_one_slot_or_none_witness:
  "set_db (JStr ''k'') long_value (empty_store 8)
     = (Inr False, log ''DynamicDB'' ''set'' ''Failed to serialize data.'' (empty_store 8))
   \<and> keys (snd (set_db (JStr ''k'') long_value (empty_store 8))) = keys (empty_store 8)
   \<and> fst (set_db (JStr ''k'') long_value (empty_store 100)) = Inr True
   \<and> keys (snd (set_db (JStr ''k'') long_value (empty_store 100))) = Inr [''k'']
   \<and> count_list [''k''] ''k'' = (1 :: nat)
   \<and> fst (get (JStr ''k'') (snd (set_db (JStr ''k'') long_value (empty_store 100)))) = Inr long_value"
proof -
  have obj: "Validator_isObject long_value"
    by (simp add: long_value_def Validator_isObject_def)
  have tx: "JSON_stringify long_value = Inr (Some ''{\"a\":\"0123456789\"}'')"
    by code_simp
  have ser: "serializable long_value"
    by (simp add: long_value_def)
  have p8: "PROPERTIES (empty_store 8) = Some \<lparr>slots = [], slot_limit = 8\<rparr>"
    and p100: "PROPERTIES (empty_store 100) = Some \<lparr>slots = [], slot_limit = 100\<rparr>"
    by (simp_all add: empty_store_def)
  from set_writes_one_slot_or_none [OF p8 obj tx, of "''k''" "JStr ''k''"]
    set_writes_one_slot_or_none [OF p100 obj tx, of "''k''" "JStr ''k''"] ser
  show ?thesis
    by (simp add: getDynamicPropertyIds_def keys_log)
qed

text \<open>
  C3: for a serializable value \<open>v\<close> and a string key \<open>k\<close>, if \<open>set(k, v)\<close> returns true
  then \<open>get(k)\<close>, called next, returns a value equal to \<open>v\<close> (and logs nothing).
\<close>

theorem set_get_round_trip:
  assumes "serializable v" and "fst (set_db (JStr k) v this) = Inr True"
  shows "get (JStr k) (snd (set_db (JStr k) v this)) = (Inr v, snd (set_db (JStr k) v this))"
proof -
  from assms(2) obtain k' b t where k': "JStr k = JStr k'" and b: "PROPERTIES this = Some b"
    and t: "JSON_stringify v = Inr (Some t)"
    and st: "snd (set_db (JStr k) v this) = this\<lparr>PROPERTIES := Some (b\<lparr>slots := put_slot (slots b) k' t\<rparr>)\<rparr>"
    by (rule set_db_True)
  from JSON_roundtrip [OF assms(1)] t have "JSON_parse t = Inr v" by auto
  with get_after_put [OF b, of k t] st k' show ?thesis by simp
qed

theorem set_get_round_trip_witness:
  "serializable (JObj [(''a'', JNum 1), (''b'', JArr [JStr ''x'', JNull, JBool True])])
   \<and> fst (set_db (JStr ''k'') (JObj [(''a'', JNum 1), (''b'', JArr [JStr ''x'', JNull, JBool True])]) (empty_store 100)) = Inr True
   \<and> fst (get (JStr ''k'') (snd (set_db (JStr ''k'') (JObj [(''a'', JNum 1), (''b'', JArr [JStr ''x'', JNull, JBool True])]) (empty_store 100))))
       = Inr (JObj [(''a'', JNum 1), (''b'', JArr [JStr ''x'', JNull, JBool True])])"
proof -
  have s: "serializable (JObj [(''a'', JNum 1), (''b'', JArr [JStr ''x'', JNull, JBool True])])"
    by simp
  have t: "fst (set_db (JStr ''k'') (JObj [(''a'', JNum 1), (''b'', JArr [JStr ''x'', JNull, JBool True])]) (empty_store 100)) = Inr True"
    by code_simp
  from set_get_round_trip [OF s t] s t show ?thesis by simp
qed

text \<open>
  C4: for a string key \<open>k\<close> and an object \<open>v\<close>, \<open>push(k, v)\<close> reads the existing value for
  \<open>k\<close> and calls \<open>set\<close> with the merge of the two. The merge is shallow: every name of
  \<open>v\<close> maps to \<open>v\<close>'s value as it is, every other name to the existing value's. When \<open>k\<close>
  has no entry the existing value is absent and is merged as the empty object would be,
  the result being \<open>v\<close>. The witness is the example of the claim: \<open>{a:1, b:{x:1}}\<close> and
  \<open>push(k, {b:{y:2}, c:3})\<close> store \<open>{a:1, b:{y:2}, c:3}\<close>.
\<close>

theorem push_shallow_merge:
  assumes "get (JStr k) this = (Inr existing, this1)"
    and "distinct (map fst ps)" and "distinct (map fst (own_props existing))"
  shows "push (JStr k) (JObj ps) this = set_db (JStr k) (dataMerge existing (JObj ps)) this1
       \<and> (\<exists>ms. dataMerge existing (JObj ps) = JObj ms \<and> distinct (map fst ms)
             \<and> map_of ms = map_of (own_props existing) ++ map_of ps)
       \<and> (hasKey (JStr k) this = Inr False \<longrightarrow>
             existing = JUndefined
             \<and> dataMerge existing (JObj ps) = dataMerge (JObj []) (JObj ps)
             \<and> dataMerge existing (JObj ps) = JObj ps)"
proof (intro conjI impI)
  from assms(1) show "push (JStr k) (JObj ps) this = set_db (JStr k) (dataMerge existing (JObj ps)) this1"
    by (simp add: push_def Validator_isString_def Validator_isObject_def)
  from assms(2,3) show "\<exists>ms. dataMerge existing (JObj ps) = JObj ms \<and> distinct (map fst ms)
      \<and> map_of ms = map_of (own_props existing) ++ map_of ps"
    by (rule dataMerge_object)
next
  assume "hasKey (JStr k) this = Inr False"
  with assms(1) show u: "existing = JUndefined"
    by (simp add: get_def Validator_isString_def)
  then show "dataMerge existing (JObj ps) = dataMerge (JObj []) (JObj ps)"
    by (simp add: dataMerge_absent(1))
  from u assms(2) show "dataMerge existing (JObj ps) = JObj ps"
    by (simp add: dataMerge_absent(2))
qed

theorem push_shallow_merge_witness:
  "get (JStr ''k'') merge_store = (Inr (JObj [(''a'', JNum 1), (''b'', JObj [(''x'', JNum 1)])]), merge_store)
   \<and> dataMerge (JObj [(''a'', JNum 1), (''b'', JObj [(''x'', JNum 1)])])
        (JObj [(''b'', JObj [(''y'', JNum 2)]), (''c'', JNum 3)])
      = JObj [(''a'', JNum 1), (''b'', JObj [(''y'', JNum 2)]), (''c'', JNum 3)]
   \<and> push (JStr ''k'') (JObj [(''b'', JObj [(''y'', JNum 2)]), (''c'', JNum 3)]) merge_store
      = set_db (JStr ''k'') (JObj [(''a'', JNum 1), (''b'', JObj [(''y'', JNum 2)]), (''c'', JNum 3)]) merge_store
   \<and> fst (get (JStr ''k'') (snd (push (JStr ''k'') (JObj [(''b'', JObj [(''y'', JNum 2)]), (''c'', JNum 3)]) merge_store)))
      = Inr (JObj [(''a'', JNum 1), (''b'', JObj [(''y'', JNum 2)]), (''c'', JNum 3)])"
proof -
  have g: "get (JStr ''k'') merge_store = (Inr (JObj [(''a'', JNum 1), (''b'', JObj [(''x'', JNum 1)])]), merge_store)"
    by code_simp
  have m: "dataMerge (JObj [(''a'', JNum 1), (''b'', JObj [(''x'', JNum 1)])])
        (JObj [(''b'', JObj [(''y'', JNum 2)]), (''c'', JNum 3)])
      = JObj [(''a'', JNum 1), (''b'', JObj [(''y'', JNum 2)]), (''c'', JNum 3)]"
    by code_simp
  have d1: "distinct (map fst [(''b'', JObj [(''y'', JNum 2)]), (''c'', JNum 3)])"
    by simp
  have d2: "distinct (map fst (own_props (JObj [(''a'', JNum 1), (''b'', JObj [(''x'', JNum 1)])])))"
    by (simp add: own_props_def)
  have s: "fst (get (JStr ''k'') (snd (set_db (JStr ''k'') (JObj [(''a'', JNum 1), (''b'', JObj [(''y'', JNum 2)]), (''c'', JNum 3)]) merge_store)))
      = Inr (JObj [(''a'', JNum 1), (''b'', JObj [(''y'', JNum 2)]), (''c'', JNum 3)])"
    by code_simp
  from push_shallow_merge [OF g d1 d2] g m s show ?thesis
    by simp
qed

text \<open>
  C5: for a string key with no entry, \<open>delete\<close> returns false and leaves the backend as
  it was; and for every key, the backend after two \<open>delete\<close> calls in a row is the
  backend after one.
\<close>

theorem delete_absent_and_twice:
  "(hasKey (JStr k) this = Inr False \<longrightarrow>
      fst (delete (JStr k) this) = Inr False
      \<and> PROPERTIES (snd (delete (JStr k) this)) = PROPERTIES this)
   \<and> PROPERTIES (snd (delete key (snd (delete key this)))) = PROPERTIES (snd (delete key this))"
proof (intro conjI impI)
  assume absent: "hasKey (JStr k) this = Inr False"
  then show "fst (delete (JStr k) this) = Inr False"
    by (simp add: delete_def Validator_isString_def)
  from absent show "PROPERTIES (snd (delete (JStr k) this)) = PROPERTIES this"
    by (simp add: delete_def Validator_isString_def log_PROPERTIES)
next
  show "PROPERTIES (snd (delete key (snd (delete key this)))) = PROPERTIES (snd (delete key this))"
    by (cases "PROPERTIES this"; cases key) (simp_all add: delete_PROPERTIES)
qed

theorem delete_absent_and_twice_witness:
  "hasKey (JStr ''k'') (empty_store 100) = Inr False
   \<and> fst (delete (JStr ''k'') (empty_store 100)) = Inr False
   \<and> PROPERTIES (snd (delete (JStr ''k'') (empty_store 100))) = PROPERTIES (empty_store 100)
   \<and> PROPERTIES (snd (delete (JStr ''k'') (snd (delete (JStr ''k'') (empty_store 100)))))
      = PROPERTIES (snd (delete (JStr ''k'') (empty_store 100)))"
proof -
  have absent: "hasKey (JStr ''k'') (empty_store 100) = Inr False"
    by (simp add: empty_store_def hasKey_def keys_def getDynamicPropertyIds_def)
  with delete_absent_and_twice [of "''k''" "empty_store 100" "JStr ''k''"] show ?thesis
    by simp
qed

text \<open>
  C6: \<open>set\<close> returns false without changing the backend whenever the key is not a string
  or the value is not a structured object; \<open>set(123, {})\<close> and
  \<open>set("k", "not an object")\<close> are the two instances of the witness.
\<close>

theorem set_rejects_invalid_arguments:
  assumes "\<not> Validator_isString key \<or> \<not> Validator_isObject data"
  shows "fst (set_db key data this) = Inr False
       \<and> PROPERTIES (snd (set_db key data this)) = PROPERTIES this"
  using assms by (auto simp: set_db_def log_PROPERTIES)

theorem set_rejects_invalid_arguments_witness:
  "fst (set_db (JNum 123) (JObj []) \<lparr>PROPERTIES = Some \<lparr>slots = [], slot_limit = 100\<rparr>, Logger = None\<rparr>) = Inr False
 \<and> PROPERTIES (snd (set_db (JNum 123) (JObj []) \<lparr>PROPERTIES = Some \<lparr>slots = [], slot_limit = 100\<rparr>, Logger = None\<rparr>))
     = Some \<lparr>slots = [], slot_limit = 100\<rparr>
 \<and> fst (set_db (JStr ''k'') (JStr ''not an object'') \<lparr>PROPERTIES = Some \<lparr>slots = [], slot_limit = 100\<rparr>, Logger = None\<rparr>) = Inr False
 \<and> PROPERTIES (snd (set_db (JStr ''k'') (JStr ''not an object'') \<lparr>PROPERTIES = Some \<lparr>slots = [], slot_limit = 100\<rparr>, Logger = None\<rparr>))
     = Some \<lparr>slots = [], slot_limit = 100\<rparr>"
  using set_rejects_invalid_arguments [of "JNum 123" "JObj []" "\<lparr>PROPERTIES = Some \<lparr>slots = [], slot_limit = 100\<rparr>, Logger = None\<rparr>"]
    set_rejects_invalid_arguments [of "JStr ''k''" "JStr ''not an object''" "\<lparr>PROPERTIES = Some \<lparr>slots = [], slot_limit = 100\<rparr>, Logger = None\<rparr>"]
  by (simp add: Validator_isString_def Validator_isObject_def)

text \<open>
  C7: \<open>entries()\<close> is claimed to skip a key whose stored text fails to deserialize and
  to go on with the remaining keys. At the store below \<open>b\<close> is readable, yet draining
  \<open>entries()\<close> ends in the \<open>SyntaxError\<close> of \<open>get("a")\<close> and yields nothing: the branch
  that skips an undefined value is never reached.
\<close>

theorem entries_corrupt_text_aborts:
  "keys corrupt_store = Inr [''a'', ''b'']
   \<and> get (JStr ''b'') corrupt_store = (Inr (JObj []), corrupt_store)
   \<and> entries corrupt_store = (Inl SyntaxError, corrupt_store)"
  by code_simp

text \<open>
  C8: \<open>bytes\<close> is the backend's live total at every read, also after other code has
  replaced the Owner's properties, and right after \<open>reset()\<close> it is 0.
\<close>

theorem bytes_live_and_zero_after_reset:
  assumes "PROPERTIES this = Some b"
  shows "bytes this = Inr (getDynamicPropertyTotalByteCount b)
       \<and> bytes (this\<lparr>PROPERTIES := Some b'\<rparr>) = Inr (getDynamicPropertyTotalByteCount b')
       \<and> fst (reset this) = Inr ()
       \<and> bytes (snd (reset this)) = Inr 0"
  using assms
  by (simp add: bytes_def reset_def clearDynamicProperties_def getDynamicPropertyTotalByteCount_def)

theorem bytes_live_and_zero_after_reset_witness:
  "PROPERTIES \<lparr>PROPERTIES = Some \<lparr>slots = [(''a'', ''{}'')], slot_limit = 100\<rparr>, Logger = None\<rparr>
     = Some \<lparr>slots = [(''a'', ''{}'')], slot_limit = 100\<rparr>
   \<and> bytes \<lparr>PROPERTIES = Some \<lparr>slots = [(''a'', ''{}'')], slot_limit = 100\<rparr>, Logger = None\<rparr> = Inr 3
   \<and> bytes (\<lparr>PROPERTIES = Some \<lparr>slots = [(''a'', ''{}'')], slot_limit = 100\<rparr>, Logger = None\<rparr>
        \<lparr>PROPERTIES := Some \<lparr>slots = [(''a'', ''{}''), (''other'', ''[1]'')], slot_limit = 100\<rparr>\<rparr>) = Inr 11
   \<and> bytes (snd (reset \<lparr>PROPERTIES = Some \<lparr>slots = [(''a'', ''{}'')], slot_limit = 100\<rparr>, Logger = None\<rparr>)) = Inr 0"
  using bytes_live_and_zero_after_reset
    [of "\<lparr>PROPERTIES = Some \<lparr>slots = [(''a'', ''{}'')], slot_limit = 100\<rparr>, Logger = None\<rparr>"
        "\<lparr>slots = [(''a'', ''{}'')], slot_limit = 100\<rparr>"
        "\<lparr>slots = [(''a'', ''{}''), (''other'', ''[1]'')], slot_limit = 100\<rparr>"]
  by (simp add: getDynamicPropertyTotalByteCount_def)

text \<open>
  C9: \<open>values()\<close>, \<open>find\<close> and \<open>forEach\<close> materialize \<open>entries()\<close> into an array before
  any caller code runs. Whatever states the caller of \<open>values()\<close> leaves between its calls
  of \<open>next()\<close>, it is handed the values of that array in order; \<open>find\<close> and \<open>forEach\<close>
  visit the entries of that array in order, whatever the callback does to the store. In
  the witness the callbacks delete entries that are still to be visited, and these are
  visited all the same.
\<close>

theorem iteration_visits_snapshot:
  assumes "entries this = (Inr entries_arr, this1)"
  shows "values_pull VStart (this # later) = take (Suc (length later)) (map snd entries_arr)
       \<and> find_db predicate this = find_first predicate entries_arr this1
       \<and> forEach callbackfn this = visit_all callbackfn entries_arr this1"
proof (intro conjI)
  show "values_pull VStart (this # later) = take (Suc (length later)) (map snd entries_arr)"
  proof (cases entries_arr)
    case Nil
    with assms show ?thesis
      by (simp add: values_next_def values_test_def)
  next
    case (Cons e es)
    with assms values_pull_yield [of entries_arr 0 later] show ?thesis
      by (simp add: values_next_def values_test_def)
  qed
  from assms show "find_db predicate this = find_first predicate entries_arr this1"
    by (simp add: find_db_def find_loop_drop)
  from assms show "forEach callbackfn this = visit_all callbackfn entries_arr this1"
    by (simp add: forEach_def forEach_loop_drop)
qed

theorem iteration_visits_snapshot_witness:
  "entries two_store = (Inr [(JStr ''a'', JObj [(''n'', JNum 1)]), (JStr ''b'', JObj [(''n'', JNum 2)])], two_store)
   \<and> values_pull VStart [two_store, empty_store 100] = [JObj [(''n'', JNum 1)], JObj [(''n'', JNum 2)]]
   \<and> fst (find_db (wipe_then_match (JStr ''b'')) two_store) = Inr (JObj [(''n'', JNum 2)])
   \<and> keys (snd (find_db (wipe_then_match (JStr ''b'')) two_store)) = Inr []
   \<and> fst (get (JStr ''seen'') (snd (forEach drop_b_and_mark two_store)))
       = Inr (JObj [(''a'', JObj [(''n'', JNum 1)]), (''b'', JObj [(''n'', JNum 2)])])
   \<and> keys (snd (forEach drop_b_and_mark two_store)) = Inr [''a'', ''seen'']"
proof -
  have f: "find_first (wipe_then_match (JStr ''b'')) [(JStr ''a'', JObj [(''n'', JNum 1)]), (JStr ''b'', JObj [(''n'', JNum 2)])] two_store
      = (Inr (JObj [(''n'', JNum 2)]), empty_store 100)"
    by code_simp
  have k: "keys (empty_store 100) = Inr []"
    by code_simp
  have v: "fst (get (JStr ''seen'') (snd (visit_all drop_b_and_mark [(JStr ''a'', JObj [(''n'', JNum 1)]), (JStr ''b'', JObj [(''n'', JNum 2)])] two_store)))
       = Inr (JObj [(''a'', JObj [(''n'', JNum 1)]), (''b'', JObj [(''n'', JNum 2)])])"
    by code_simp
  have w: "keys (snd (visit_all drop_b_and_mark [(JStr ''a'', JObj [(''n'', JNum 1)]), (JStr ''b'', JObj [(''n'', JNum 2)])] two_store)) = Inr [''a'', ''seen'']"
    by code_simp
  from iteration_visits_snapshot [OF two_store_entries, of "[empty_store 100]" "wipe_then_match (JStr ''b'')" drop_b_and_mark]
    two_store_entries f k v w
  show ?thesis by simp
qed

text \<open>
  C10, as stated, fails: on an instance whose constructor argument was not an Owner,
  \<open>set("k", {})\<close> returns false, and \<open>get\<close> and \<open>delete\<close> with a key that is not a string
  return their sentinels; none of them throws.
\<close>

theorem unassigned_set_counterexample:
  "\<not> IsInstanceOfType (AOther JNull)
   \<and> PROPERTIES (constructor (Some []) (AOther JNull)) = None
   \<and> fst (set_db (JStr ''k'') (JObj []) (constructor (Some []) (AOther JNull))) = Inr False
   \<and> fst (get (JNum 1) (constructor (Some []) (AOther JNull))) = Inr JUndefined
   \<and> fst (delete (JNum 1) (constructor (Some []) (AOther JNull))) = Inr False"
  by code_simp

text \<open>
  C10, amended: if the constructor argument is not an instance of World, Player or
  Entity, the constructor does not throw; it gives the logger, when there is one, a single
  record and returns with the backend unassigned, and no method assigns it later. On such
  an instance \<open>keys\<close>, \<open>bytes\<close>, \<open>hasKey\<close>, \<open>reset\<close> and the iteration of \<open>entries\<close> throw, and
  so do \<open>get\<close> and \<open>delete\<close> with a string key and \<open>push\<close> with a string key and an object.
  \<open>set\<close> never throws: its \<open>catch\<close> turns the failed dereference into the result false.
  \<open>get\<close>, \<open>delete\<close> and \<open>push\<close> with a key that is not a string, and \<open>push\<close> with a value
  that is not an object, return their sentinel before they touch the backend.
\<close>

theorem unassigned_backend:
  assumes "\<not> IsInstanceOfType type"
  shows "PROPERTIES (constructor dev type) = None
       \<and> Logger (constructor dev type) = map_option (Danger constructor_message) dev
       \<and> (\<forall>this key data. PROPERTIES this = None \<longrightarrow>
             keys this = Inl TypeError
           \<and> bytes this = Inl TypeError
           \<and> hasKey key this = Inl TypeError
           \<and> reset this = (Inl TypeError, this)
           \<and> entries this = (Inl TypeError, this)
           \<and> (Validator_isString key \<longrightarrow>
                 get key this = (Inl TypeError, this)
               \<and> delete key this = (Inl TypeError, this)
               \<and> (Validator_isObject data \<longrightarrow> push key data this = (Inl TypeError, this))
               \<and> (\<not> Validator_isObject data \<longrightarrow> fst (push key data this) = Inr False))
           \<and> (\<not> Validator_isString key \<longrightarrow>
                 fst (get key this) = Inr JUndefined
               \<and> fst (delete key this) = Inr False
               \<and> fst (push key data this) = Inr False)
           \<and> fst (set_db key data this) = Inr False
           \<and> PROPERTIES (snd (set_db key data this)) = None
           \<and> PROPERTIES (snd (get key this)) = None
           \<and> PROPERTIES (snd (delete key this)) = None
           \<and> PROPERTIES (snd (push key data this)) = None)"
proof (intro conjI allI impI)
  from assms show "PROPERTIES (constructor dev type) = None"
    by (simp add: constructor_def Let_def log_PROPERTIES)
  from assms show "Logger (constructor dev type) = map_option (Danger constructor_message) dev"
    by (cases dev) (simp_all add: constructor_def Let_def log_def constructor_message_def)
next
  fix this :: db and key data
  assume u: "PROPERTIES this = None"
  then show "keys this = Inl TypeError" by (simp add: keys_def)
  from u show "bytes this = Inl TypeError" by (simp add: bytes_def)
  from u show "hasKey key this = Inl TypeError" by (rule hasKey_unbound)
  from u show "reset this = (Inl TypeError, this)" by (simp add: reset_def)
  from u show "entries this = (Inl TypeError, this)" by (rule entries_unbound)
  have no_try: "set_try key data this = Inl TypeError \<or> (\<exists>e. set_try key data this = Inl e)"
    using u by (simp add: set_try_def split: sum.splits)
  then show "fst (set_db key data this) = Inr False"
    by (auto simp: set_db_def)
  from no_try u show "PROPERTIES (snd (set_db key data this)) = None"
    by (auto simp: set_db_def log_PROPERTIES)
  from u show "PROPERTIES (snd (get key this)) = None"
    by (simp add: get_PROPERTIES)
  from u show "PROPERTIES (snd (delete key this)) = None"
    by (simp add: delete_PROPERTIES)
  from u show "PROPERTIES (snd (push key data this)) = None"
    by (simp add: push_def get_def hasKey_unbound log_PROPERTIES)
  {
    assume s: "Validator_isString key"
    with u show g: "get key this = (Inl TypeError, this)"
      by (simp add: get_def hasKey_unbound)
    from s u show "delete key this = (Inl TypeError, this)"
      by (simp add: delete_def hasKey_unbound)
    {
      assume "Validator_isObject data"
      with s g show "push key data this = (Inl TypeError, this)"
        by (simp add: push_def)
    }
    {
      assume "\<not> Validator_isObject data"
      with s show "fst (push key data this) = Inr False"
        by (simp add: push_def)
    }
  }
  {
    assume n: "\<not> Validator_isString key"
    then show "fst (get key this) = Inr JUndefined" by (simp add: get_def)
    from n show "fst (delete key this) = Inr False" by (simp add: delete_def)
    from n show "fst (push key data this) = Inr False" by (simp add: push_def)
  }
qed

theorem unassigned_backend_witness:
  "\<not> IsInstanceOfType (AOther JNull)
   \<and> constructor (Some []) (AOther JNull) = \<lparr>PROPERTIES = None, Logger = Some [constructor_message]\<rparr>
   \<and> keys (constructor (Some []) (AOther JNull)) = Inl TypeError
   \<and> fst (get (JStr ''k'') (constructor (Some []) (AOther JNull))) = Inl TypeError
   \<and> fst (push (JStr ''k'') (JObj []) (constructor (Some []) (AOther JNull))) = Inl TypeError
   \<and> fst (set_db (JStr ''k'') (JObj []) (constructor (Some []) (AOther JNull))) = Inr False"
proof -
  have a: "\<not> IsInstanceOfType (AOther JNull)"
    by (simp add: IsInstanceOfType_def)
  have c: "constructor (Some []) (AOther JNull) = \<lparr>PROPERTIES = None, Logger = Some [constructor_message]\<rparr>"
    by (simp add: constructor_def IsInstanceOfType_def log_def Danger_def constructor_message_def)
  have s: "Validator_isString (JStr ''k'')" and ob: "Validator_isObject (JObj [])"
    by (simp_all add: Validator_isString_def Validator_isObject_def)
  from unassigned_backend [OF a, of "Some []"]
  have u: "PROPERTIES (constructor (Some []) (AOther JNull)) = None"
    and r: "\<forall>this key data. PROPERTIES this = None \<longrightarrow>
             keys this = Inl TypeError
           \<and> bytes this = Inl TypeError
           \<and> hasKey key this = Inl TypeError
           \<and> reset this = (Inl TypeError, this)
           \<and> entries this = (Inl TypeError, this)
           \<and> (Validator_isString key \<longrightarrow>
                 get key this = (Inl TypeError, this)
               \<and> delete key this = (Inl TypeError, this)
               \<and> (Validator_isObject data \<longrightarrow> push key data this = (Inl TypeError, this))
               \<and> (\<not> Validator_isObject data \<longrightarrow> fst (push key data this) = Inr False))
           \<and> (\<not> Validator_isString key \<longrightarrow>
                 fst (get key this) = Inr JUndefined
               \<and> fst (delete key this) = Inr False
               \<and> fst (push key data this) = Inr False)
           \<and> fst (set_db key data this) = Inr False
           \<and> PROPERTIES (snd (set_db key data this)) = None
           \<and> PROPERTIES (snd (get key this)) = None
           \<and> PROPERTIES (snd (delete key this)) = None
           \<and> PROPERTIES (snd (push key data this)) = None"
    by blast+
  from r [rule_format, OF u, of "JStr ''k''" "JObj []"] s ob a c show ?thesis
    by simp
qed

end
